theory Spec2Isabelle
  imports
    Complex_Main
    "HOL-Library.Product_Lexorder"
    "HOL-Library.List_Lexorder"
    "HOL-Library.Char_ord"
    "HOL-Library.Multiset"
begin

section \<open>Dijkstra with a binary heap (task\_3\_dijkstra\_heap.py)\<close>

text \<open>
  The theory embeds the class \<open>Graph\<close> of \<^verbatim>\<open>src/task_3_dijkstra_heap.py\<close>:
  \<open>add_edge\<close>, \<open>dijkstra\<close>, \<open>reconstruct_path\<close> and \<open>demo_graph\<close>.

  Conventions of the embedding.
  \<^item> A vertex is a value of a type \<open>'v\<close> with a linear order: \<open>heapq\<close> compares the
    tuples \<open>(distance, vertex)\<close> lexicographically, so it compares vertices whenever two
    distances tie.
  \<^item> \<open>None\<close> is not a vertex: the code uses it for ``no predecessor'', and the
    entries of \<open>prev\<close> are values of \<open>'v option\<close>.
  \<^item> An edge weight is a \<open>real\<close>. Python's \<open>float\<close> is read as exact arithmetic on
    finite numbers (no rounding, no overflow, no NaN); \<open>float(w)\<close> is the identity.
    A distance is an \<open>xfloat\<close>: a finite number or \<open>float('inf')\<close>.
  \<^item> A \<open>dict\<close> is a map \<open>'k \<rightharpoonup> 'a\<close>; two dictionaries are equal when they agree on
    every key, as in Python.
  \<^item> An exception is a value of the type \<open>error\<close>; a function that can raise returns
    \<open>error + 'a\<close>, and a method of \<open>Graph\<close> also returns the graph as it is after the call.
  \<^item> A \<open>while\<close> loop that is not structurally bounded is a
    \<^theory_text>\<open>partial_function (option)\<close>: \<open>None\<close> stands for a loop that never ends.
\<close>

subsection \<open>Values: distances and errors\<close>

datatype xfloat = Fin real | PInf

instantiation xfloat :: linorder
begin

fun less_eq_xfloat :: "xfloat \<Rightarrow> xfloat \<Rightarrow> bool" where
  "less_eq_xfloat (Fin a) (Fin b) = (a \<le> b)"
| "less_eq_xfloat _ PInf = True"
| "less_eq_xfloat PInf (Fin b) = False"

fun less_xfloat :: "xfloat \<Rightarrow> xfloat \<Rightarrow> bool" where
  "less_xfloat (Fin a) (Fin b) = (a < b)"
| "less_xfloat (Fin a) PInf = True"
| "less_xfloat PInf _ = False"

instance
proof
  fix x y z :: xfloat
  show "(x < y) = (x \<le> y \<and> \<not> y \<le> x)"
    by (cases x; cases y) auto
  show "x \<le> x"
    by (cases x) auto
  show "x \<le> y \<Longrightarrow> y \<le> z \<Longrightarrow> x \<le> z"
    by (cases x; cases y; cases z) auto
  show "x \<le> y \<Longrightarrow> y \<le> x \<Longrightarrow> x = y"
    by (cases x; cases y) auto
  show "x \<le> y \<or> y \<le> x"
    by (cases x; cases y) auto
qed

end

text \<open>
  \<open>ValueError\<close> is raised by \<open>add_edge\<close> (the spec's \<open>InvalidWeight\<close>).
  \<open>KeyError_source s\<close> is the \<open>KeyError\<close> that \<open>dijkstra\<close> raises itself for a source
  that is not a key of \<open>self.adj\<close> (the spec's \<open>UnknownSource\<close>); \<open>KeyError_key k\<close> is
  the \<open>KeyError\<close> of a failed subscript \<open>d[k]\<close> on a plain \<open>dict\<close>;
  \<open>IndexError\<close> is what \<open>heappop\<close> raises on an empty heap.
\<close>

datatype 'v error = ValueError | KeyError_source 'v | KeyError_key 'v | IndexError

subsection \<open>The graph\<close>

text \<open>
  \<open>self.adj\<close> is a \<open>defaultdict(list)\<close>: subscripting it with a missing key stores an
  empty list under that key and returns it; the test \<open>k in self.adj\<close> stores nothing.
\<close>

record 'v graph =
  adj :: "'v \<rightharpoonup> ('v \<times> real) list"

definition Graph_init :: "'v graph" where
  "Graph_init = \<lparr>adj = Map.empty\<rparr>"

definition adj_getitem :: "'v graph \<Rightarrow> 'v \<Rightarrow> ('v \<times> real) list \<times> 'v graph" where
  "adj_getitem g u =
     (case adj g u of
        Some ns \<Rightarrow> (ns, g)
      | None \<Rightarrow> ([], g\<lparr>adj := (adj g)(u \<mapsto> [])\<rparr>))"

definition adj_append :: "'v graph \<Rightarrow> 'v \<Rightarrow> 'v \<times> real \<Rightarrow> 'v graph" where
  "adj_append g u e =
     (let (ns, g1) = adj_getitem g u in g1\<lparr>adj := (adj g1)(u \<mapsto> ns @ [e])\<rparr>)"

definition add_edge ::
  "'v graph \<Rightarrow> 'v \<Rightarrow> 'v \<Rightarrow> real \<Rightarrow> bool \<Rightarrow> ('v error + unit) \<times> 'v graph" where
  "add_edge g u v w undirected =
     (if w < 0 then (Inl ValueError, g)
      else
        let g1 = adj_append g u (v, w);
            g2 = (if v \<notin> dom (adj g1) then g1\<lparr>adj := (adj g1)(v \<mapsto> [])\<rparr> else g1);
            g3 = (if undirected then adj_append g2 v (u, w) else g2)
        in (Inr (), g3))"

text \<open>
  A sequence of \<open>add_edge\<close> calls, as the \<open>for\<close> loops of \<open>demo_graph\<close> and
  \<open>read_edges_from_file\<close> issue them: the first exception ends the sequence.
\<close>

fun add_edges ::
  "'v graph \<Rightarrow> ('v \<times> 'v \<times> real \<times> bool) list \<Rightarrow> ('v error + unit) \<times> 'v graph" where
  "add_edges g [] = (Inr (), g)"
| "add_edges g ((u, v, w, undirected) # es) =
     (case add_edge g u v w undirected of
        (Inl e, g') \<Rightarrow> (Inl e, g')
      | (Inr _, g') \<Rightarrow> add_edges g' es)"

definition demo_edges :: "(string \<times> string \<times> real) list" where
  "demo_edges =
     [(''A'', ''B'', 4), (''A'', ''C'', 2), (''B'', ''C'', 1), (''B'', ''D'', 5),
      (''C'', ''D'', 8), (''C'', ''E'', 10), (''D'', ''E'', 2), (''B'', ''E'', 6)]"

definition demo_graph :: "bool \<Rightarrow> (string error + unit) \<times> string graph" where
  "demo_graph undirected =
     add_edges Graph_init (map (\<lambda>(u, v, w). (u, v, w, undirected)) demo_edges)"

subsection \<open>The priority queue\<close>

text \<open>
  \<open>heapq\<close> keeps a list in heap order; of its contract only this is used:
  \<open>heappush\<close> adds an entry, \<open>heappop\<close> removes and returns a least entry. The heap is
  modelled by the list of its entries; since the order on entries is linear, the least
  entry is determined as a value.
\<close>

definition heappush :: "'a list \<Rightarrow> 'a \<Rightarrow> 'a list" where
  "heappush h x = x # h"

fun heappop :: "('a::linorder) list \<Rightarrow> ('a \<times> 'a list) option" where
  "heappop [] = None"
| "heappop (x # xs) = (let m = fold min xs x in Some (m, remove1 m (x # xs)))"

subsection \<open>dijkstra\<close>

text \<open>The local variables \<open>dist\<close>, \<open>prev\<close> and \<open>heap\<close> of \<open>dijkstra\<close>.\<close>

record 'v locals =
  dist :: "'v \<rightharpoonup> xfloat"
  prev :: "'v \<rightharpoonup> 'v option"
  heap :: "(real \<times> 'v) list"

text \<open>The \<open>for v, w in self.adj[u]\<close> loop: relaxation of the edges leaving \<open>u\<close>.\<close>

fun relax :: "'v \<Rightarrow> real \<Rightarrow> ('v \<times> real) list \<Rightarrow> 'v locals \<Rightarrow> 'v error + 'v locals" where
  "relax u d_u [] l = Inr l"
| "relax u d_u ((v, w) # ns) l =
     (let alt = d_u + w in
      case dist l v of
        None \<Rightarrow> Inl (KeyError_key v)
      | Some dv \<Rightarrow>
          if Fin alt < dv
          then relax u d_u ns
                 (l\<lparr>dist := (dist l)(v \<mapsto> Fin alt),
                    prev := (prev l)(v \<mapsto> Some u),
                    heap := heappush (heap l) (alt, v)\<rparr>)
          else relax u d_u ns l)"

text \<open>One iteration of \<open>while heap\<close>, entered with a non-empty heap.\<close>

definition loop_body ::
  "'v::linorder graph \<Rightarrow> 'v locals \<Rightarrow> ('v error + 'v locals) \<times> 'v graph" where
  "loop_body g l =
     (case heappop (heap l) of
        None \<Rightarrow> (Inl IndexError, g)
      | Some ((d_u, u), h) \<Rightarrow>
          (let l1 = l\<lparr>heap := h\<rparr>
           in case dist l1 u of
                None \<Rightarrow> (Inl (KeyError_key u), g)
              | Some du \<Rightarrow>
                  if Fin d_u \<noteq> du then (Inr l1, g)
                  else let (ns, g1) = adj_getitem g u in (relax u d_u ns l1, g1)))"

partial_function (option) dijkstra_loop ::
  "'v::linorder graph \<Rightarrow> 'v locals \<Rightarrow> (('v error + 'v locals) \<times> 'v graph) option" where
  "dijkstra_loop g l =
     (if heap l = [] then Some (Inr l, g)
      else case loop_body g l of
             (Inl e, g1) \<Rightarrow> Some (Inl e, g1)
           | (Inr l1, g1) \<Rightarrow> dijkstra_loop g1 l1)"

declare dijkstra_loop.simps [code]

text \<open>
  The locals as the loop is entered: the two dictionary comprehensions over the keys of
  \<open>self.adj\<close>, then \<open>dist[source] = 0.0\<close> and the heap \<open>[(0.0, source)]\<close>. The code
  evaluates the comprehensions before it tests \<open>source not in self.adj\<close>; they touch
  nothing but the two new local dictionaries, so \<open>dijkstra\<close> below makes the test first.
\<close>

definition init_locals :: "'v graph \<Rightarrow> 'v \<Rightarrow> 'v locals" where
  "init_locals g source =
     \<lparr>dist = (map_option (\<lambda>_. PInf) \<circ> adj g)(source \<mapsto> Fin 0),
      prev = map_option (\<lambda>_. None) \<circ> adj g,
      heap = [(0, source)]\<rparr>"

definition dijkstra ::
  "'v::linorder graph \<Rightarrow> 'v \<Rightarrow>
     (('v error + ('v \<rightharpoonup> xfloat) \<times> ('v \<rightharpoonup> 'v option)) \<times> 'v graph) option" where
  "dijkstra g source =
     (if source \<notin> dom (adj g) then Some (Inl (KeyError_source source), g)
      else case dijkstra_loop g (init_locals g source) of
             None \<Rightarrow> None
           | Some (Inl e, g1) \<Rightarrow> Some (Inl e, g1)
           | Some (Inr l, g1) \<Rightarrow> Some (Inr (dist l, prev l), g1))"

subsection \<open>reconstruct\_path\<close>

text \<open>The loop \<open>while cur is not None\<close>; \<open>prev[cur]\<close> is a subscript on a plain dict.\<close>

partial_function (option) walk_back ::
  "('v \<rightharpoonup> 'v option) \<Rightarrow> 'v option \<Rightarrow> 'v list \<Rightarrow> ('v error + 'v list) option" where
  "walk_back pr cur path =
     (case cur of
        None \<Rightarrow> Some (Inr path)
      | Some c \<Rightarrow>
          (case pr c of
             None \<Rightarrow> Some (Inl (KeyError_key c))
           | Some p \<Rightarrow> walk_back pr p (path @ [c])))"

declare walk_back.simps [code]

definition reconstruct_path ::
  "('v \<rightharpoonup> 'v option) \<Rightarrow> 'v \<Rightarrow> ('v error + 'v list) option" where
  "reconstruct_path pr target =
     (if target \<notin> dom pr then Some (Inr [])
      else case walk_back pr (Some target) [] of
             None \<Rightarrow> None
           | Some (Inl e) \<Rightarrow> Some (Inl e)
           | Some (Inr path) \<Rightarrow> Some (Inr (rev path)))"

subsection \<open>The specification's stale test; the states of an execution\<close>


text \<open>
  The states of an execution of \<open>dijkstra g source\<close> at the head of the \<open>while\<close>
  loop: the state after initialisation, and the state after each iteration that did not
  raise.
\<close>

inductive reach :: "'v::linorder graph \<Rightarrow> 'v \<Rightarrow> 'v graph \<times> 'v locals \<Rightarrow> bool"
  for g :: "'v graph" and source :: 'v where
  reach_init: "source \<in> dom (adj g) \<Longrightarrow> reach g source (g, init_locals g source)"
| reach_step:
    "reach g source (g1, l) \<Longrightarrow> heap l \<noteq> [] \<Longrightarrow> loop_body g1 l = (Inr l', g2) \<Longrightarrow>
     reach g source (g2, l')"

code_pred reach .

subsection \<open>Paths and the graph invariant\<close>

text \<open>
  \<open>edge g u v w\<close>: the pair \<open>(v, w)\<close> is in the neighbour list of \<open>u\<close>. A path from
  \<open>u\<close> is the list of its hops \<open>(next vertex, weight)\<close>; the empty list is the path
  that stays at \<open>u\<close>.
\<close>

definition edge :: "'v graph \<Rightarrow> 'v \<Rightarrow> 'v \<Rightarrow> real \<Rightarrow> bool" where
  "edge g u v w = (case adj g u of None \<Rightarrow> False | Some ns \<Rightarrow> (v, w) \<in> set ns)"

fun path_ok :: "'v graph \<Rightarrow> 'v \<Rightarrow> ('v \<times> real) list \<Rightarrow> bool" where
  "path_ok g u [] = True"
| "path_ok g u ((v, w) # p) = (edge g u v w \<and> path_ok g v p)"

fun path_end :: "'v \<Rightarrow> ('v \<times> real) list \<Rightarrow> 'v" where
  "path_end u [] = u"
| "path_end u ((v, w) # p) = path_end v p"

definition path_weight :: "('v \<times> real) list \<Rightarrow> real" where
  "path_weight p = sum_list (map snd p)"

definition is_path :: "'v graph \<Rightarrow> 'v \<Rightarrow> ('v \<times> real) list \<Rightarrow> 'v \<Rightarrow> bool" where
  "is_path g s p v = (path_ok g s p \<and> path_end s p = v)"

definition reachable :: "'v graph \<Rightarrow> 'v \<Rightarrow> 'v \<Rightarrow> bool" where
  "reachable g s v = (\<exists>p. is_path g s p v)"

text \<open>
  The invariant of the data model: the dictionary is finite, every neighbour is a key,
  every stored weight is non-negative.
\<close>

definition graph_inv :: "'v graph \<Rightarrow> bool" where
  "graph_inv g =
     (finite (dom (adj g)) \<and>
      (\<forall>u v w. edge g u v w \<longrightarrow> v \<in> dom (adj g) \<and> 0 \<le> w))"

text \<open>The vertices named by a sequence of \<open>add_edge\<close> calls.\<close>

definition endpoints :: "('v \<times> 'v \<times> real \<times> bool) list \<Rightarrow> 'v set" where
  "endpoints es = (\<Union>(u, v, w, b) \<in> set es. {u, v})"

text \<open>
  \<open>pchain pr s v\<close>: following the predecessor links of \<open>pr\<close> from \<open>v\<close> arrives, after
  finitely many links, at \<open>s\<close>, whose predecessor is \<open>None\<close>.
\<close>

inductive pchain :: "('v \<rightharpoonup> 'v option) \<Rightarrow> 'v \<Rightarrow> 'v \<Rightarrow> bool"
  for pr :: "'v \<rightharpoonup> 'v option" and s :: 'v where
  pchain_start: "pr s = Some None \<Longrightarrow> pchain pr s s"
| pchain_link: "pr v = Some (Some u) \<Longrightarrow> pchain pr s u \<Longrightarrow> pchain pr s v"

code_pred pchain .

subsection \<open>The loop invariant\<close>

text \<open>
  A vertex is settled when its recorded distance is finite and the heap holds no entry
  with exactly that distance for it: its entry has been popped and its edges relaxed.
\<close>

definition settled :: "'v locals \<Rightarrow> 'v \<Rightarrow> bool" where
  "settled l v = (\<exists>d. dist l v = Some (Fin d) \<and> (d, v) \<notin> set (heap l))"

definition heap_inv :: "'v locals \<Rightarrow> bool" where
  "heap_inv l = (\<forall>d v. (d, v) \<in> set (heap l) \<longrightarrow> (\<exists>x. dist l v = Some x \<and> x \<le> Fin d))"

definition inv :: "'v graph \<Rightarrow> 'v \<Rightarrow> 'v locals \<Rightarrow> bool" where
  "inv g s l =
     (dom (dist l) = dom (adj g) \<and> dom (prev l) = dom (adj g) \<and>
      dist l s = Some (Fin 0) \<and> prev l s = Some None \<and>
      heap_inv l \<and> distinct (heap l) \<and>
      (\<forall>v d. dist l v = Some (Fin d) \<longrightarrow> (\<exists>p. is_path g s p v \<and> path_weight p = d)) \<and>
      (\<forall>u v w. settled l u \<longrightarrow> edge g u v w \<longrightarrow>
         (\<exists>d x. dist l u = Some (Fin d) \<and> dist l v = Some x \<and> x \<le> Fin (d + w))) \<and>
      (\<forall>u d d' v. dist l u = Some (Fin d) \<longrightarrow> (d, u) \<notin> set (heap l) \<longrightarrow>
         (d', v) \<in> set (heap l) \<longrightarrow> d \<le> d') \<and>
      (\<forall>v u. prev l v = Some (Some u) \<longrightarrow>
         settled l u \<and> (\<exists>d. dist l v = Some (Fin d)) \<and> v \<noteq> s) \<and>
      (\<forall>v d. v \<noteq> s \<longrightarrow> dist l v = Some (Fin d) \<longrightarrow> (\<exists>u. prev l v = Some (Some u))) \<and>
      (\<forall>v. settled l v \<longrightarrow> pchain (prev l) s v))"

definition unsettled :: "'v graph \<Rightarrow> 'v locals \<Rightarrow> 'v set" where
  "unsettled g l = {v \<in> dom (adj g). \<not> settled l v}"

subsection \<open>The demo graph, evaluated\<close>

definition demo_adj :: "string \<rightharpoonup> (string \<times> real) list" where
  "demo_adj =
     [''A'' \<mapsto> [(''B'', 4), (''C'', 2)],
      ''B'' \<mapsto> [(''A'', 4), (''C'', 1), (''D'', 5), (''E'', 6)],
      ''C'' \<mapsto> [(''A'', 2), (''B'', 1), (''D'', 8), (''E'', 10)],
      ''D'' \<mapsto> [(''B'', 5), (''C'', 8), (''E'', 2)],
      ''E'' \<mapsto> [(''C'', 10), (''D'', 2), (''B'', 6)]]"

definition demo_dist :: "string \<rightharpoonup> xfloat" where
  "demo_dist =
     [''A'' \<mapsto> Fin 0, ''B'' \<mapsto> Fin 3, ''C'' \<mapsto> Fin 2, ''D'' \<mapsto> Fin 8, ''E'' \<mapsto> Fin 9]"

definition demo_prev :: "string \<rightharpoonup> string option" where
  "demo_prev =
     [''A'' \<mapsto> None, ''B'' \<mapsto> Some ''C'', ''C'' \<mapsto> Some ''A'',
      ''D'' \<mapsto> Some ''B'', ''E'' \<mapsto> Some ''B'']"

section \<open>Properties\<close>

subsection \<open>add\_edge\<close>

text \<open>
  C3. A call \<open>add_edge(u, v, w, undirected)\<close> with \<open>w < 0\<close> raises \<open>ValueError\<close>
  (the spec's \<open>InvalidWeight\<close>) and leaves the graph exactly as it was, for the directed
  and for the undirected form.
\<close>

theorem add_edge_negative_rejected:
  "w < 0 \<Longrightarrow> add_edge g u v w undirected = (Inl ValueError, g)"
  by (simp add: add_edge_def)

theorem add_edge_negative_rejected_witness:
  "(-1::real) < 0 \<and>
   add_edge \<lparr>adj = [''A'' \<mapsto> [(''B'', 4)], ''B'' \<mapsto> []]\<rparr> ''A'' ''C'' (-1) True
     = (Inl ValueError, \<lparr>adj = [''A'' \<mapsto> [(''B'', 4)], ''B'' \<mapsto> []]\<rparr>)"
  using add_edge_negative_rejected
    [of "-1" "\<lparr>adj = [''A'' \<mapsto> [(''B'', 4)], ''B'' \<mapsto> []]\<rparr>" "''A''" "''C''" True]
  by simp

subsection \<open>The demo graph\<close>

lemma demo_graph_undirected: "demo_graph True = (Inr (), \<lparr>adj = demo_adj\<rparr>)"
  by (simp add: demo_graph_def demo_edges_def add_edge_def adj_append_def adj_getitem_def
      Graph_init_def demo_adj_def fun_upd_twist)

lemma demo_loop:
  "\<exists>l. dijkstra_loop \<lparr>adj = demo_adj\<rparr> (init_locals \<lparr>adj = demo_adj\<rparr> ''A'')
          = Some (Inr l, \<lparr>adj = demo_adj\<rparr>) \<and>
        dist l = demo_dist \<and> prev l = demo_prev"
  apply (simp add: demo_adj_def dijkstra_loop.simps loop_body_def init_locals_def
      adj_getitem_def heappush_def min_def)
  apply (auto simp: demo_dist_def demo_prev_def fun_eq_iff)
  done

lemma demo_dijkstra:
  "dijkstra (snd (demo_graph True)) ''A''
     = Some (Inr (demo_dist, demo_prev), snd (demo_graph True))"
proof -
  have "''A'' \<in> dom demo_adj"
    by (simp add: demo_adj_def)
  then show ?thesis
    using demo_loop by (auto simp: dijkstra_def demo_graph_undirected)
qed

text \<open>
  C2, as the code behaves. On the demo graph inserted as undirected, \<open>dijkstra\<close> from
  \<open>A\<close> returns the distances \<open>A = 0\<close>, \<open>B = 3\<close>, \<open>C = 2\<close>, \<open>D = 8\<close> and \<open>E = 9\<close>
  (the route \<open>A, C, B, E\<close> costs \<open>2 + 1 + 6\<close>), and \<open>reconstruct_path\<close> to \<open>E\<close> returns
  \<open>[A, C, B, E]\<close>, a path of the graph of total weight 9.
\<close>

theorem demo_undirected_distances:
  "fst (demo_graph True) = Inr () \<and>
   dijkstra (snd (demo_graph True)) ''A''
     = Some (Inr (demo_dist, demo_prev), snd (demo_graph True)) \<and>
   map demo_dist [''A'', ''B'', ''C'', ''D'', ''E'']
     = [Some (Fin 0), Some (Fin 3), Some (Fin 2), Some (Fin 8), Some (Fin 9)] \<and>
   reconstruct_path demo_prev ''E'' = Some (Inr [''A'', ''C'', ''B'', ''E'']) \<and>
   is_path (snd (demo_graph True)) ''A'' [(''C'', 2), (''B'', 1), (''E'', 6)] ''E'' \<and>
   path_weight [(''C'', 2::real), (''B'', 1), (''E'', 6)] = 9"
proof -
  have "reconstruct_path demo_prev ''E'' = Some (Inr [''A'', ''C'', ''B'', ''E''])"
    by (simp add: reconstruct_path_def demo_prev_def walk_back.simps)
  moreover have
    "is_path (snd (demo_graph True)) ''A'' [(''C'', 2), (''B'', 1), (''E'', 6)] ''E''"
    by (simp add: demo_graph_undirected is_path_def edge_def demo_adj_def)
  moreover have "map demo_dist [''A'', ''B'', ''C'', ''D'', ''E'']
     = [Some (Fin 0), Some (Fin 3), Some (Fin 2), Some (Fin 8), Some (Fin 9)]"
    by (simp add: demo_dist_def)
  ultimately show ?thesis
    using demo_dijkstra by (simp add: demo_graph_undirected path_weight_def)
qed

text \<open>
  C2, as the specification states it, fails: the distance returned for \<open>E\<close> is 9,
  not 10.
\<close>

theorem demo_undirected_E_not_10:
  "map_option fst (dijkstra (snd (demo_graph True)) ''A'')
     = Some (Inr (demo_dist, demo_prev)) \<and>
   demo_dist ''E'' = Some (Fin 9) \<and> demo_dist ''E'' \<noteq> Some (Fin 10)"
  using demo_dijkstra by (simp add: demo_dist_def)

subsection \<open>Auxiliary facts: the heap and relaxation\<close>

lemma heappop_None_iff: "heappop h = None \<longleftrightarrow> h = []"
  by (cases h) (simp_all add: Let_def)

lemma fold_min_Min: "fold min xs (x::'a::linorder) = Min (set (x # xs))"
  by (rule Min.set_eq_fold[symmetric])

lemma heappop_SomeD:
  assumes "heappop h = Some (m, h')"
  shows "m \<in> set h" and "\<forall>x \<in> set h. m \<le> x" and "h' = remove1 m h"
proof -
  obtain x xs where h: "h = x # xs"
    using assms by (cases h) auto
  have m: "m = Min (set h)" and h': "h' = remove1 m h"
    using assms unfolding h heappop.simps fold_min_Min by (auto simp: Let_def)
  show "m \<in> set h"
    unfolding m using Min_in[of "set h"] h by simp
  show "\<forall>x \<in> set h. m \<le> x"
    unfolding m by simp
  show "h' = remove1 m h" by (rule h')
qed

lemma heappop_nonempty:
  "h \<noteq> [] \<Longrightarrow> \<exists>m. heappop h = Some (m, remove1 m h) \<and> m \<in> set h \<and> (\<forall>x \<in> set h. m \<le> x)"
  using heappop_SomeD[of h] heappop_None_iff[of h]
  by (cases "heappop h") auto

lemma pair_le_fst: "((a::real), (u::'v::linorder)) \<le> (b, v) \<Longrightarrow> a \<le> b"
  by (auto simp: less_eq_prod_def)

lemma relax_Cons:
  "relax u d ((v, w) # ns) l =
     (case dist l v of
        None \<Rightarrow> Inl (KeyError_key v)
      | Some dv \<Rightarrow>
          if Fin (d + w) < dv
          then relax u d ns
                 (l\<lparr>dist := (dist l)(v \<mapsto> Fin (d + w)),
                    prev := (prev l)(v \<mapsto> Some u),
                    heap := (d + w, v) # heap l\<rparr>)
          else relax u d ns l)"
  by (simp add: Let_def heappush_def split: option.splits)

lemma relax_induct [consumes 1, case_names Nil skip upd]:
  assumes r: "relax u d ns l = Inr l'"
    and nil: "P [] l' l'"
    and skip: "\<And>v w ns l dv. dist l v = Some dv \<Longrightarrow> \<not> Fin (d + w) < dv \<Longrightarrow>
        relax u d ns l = Inr l' \<Longrightarrow> P ns l l' \<Longrightarrow> P ((v, w) # ns) l l'"
    and upd: "\<And>v w ns l dv l1. dist l v = Some dv \<Longrightarrow> Fin (d + w) < dv \<Longrightarrow>
        l1 = l\<lparr>dist := (dist l)(v \<mapsto> Fin (d + w)), prev := (prev l)(v \<mapsto> Some u),
                 heap := (d + w, v) # heap l\<rparr> \<Longrightarrow>
        relax u d ns l1 = Inr l' \<Longrightarrow> P ns l1 l' \<Longrightarrow> P ((v, w) # ns) l l'"
  shows "P ns l l'"
  using r
proof (induction ns arbitrary: l)
  case Nil
  then show ?case using nil by simp
next
  case (Cons e ns)
  obtain v w where e: "e = (v, w)" by (cases e)
  from Cons.prems obtain dv where dv: "dist l v = Some dv"
    unfolding e relax_Cons by (cases "dist l v") auto
  show ?case
  proof (cases "Fin (d + w) < dv")
    case True
    let ?l1 = "l\<lparr>dist := (dist l)(v \<mapsto> Fin (d + w)), prev := (prev l)(v \<mapsto> Some u),
                 heap := (d + w, v) # heap l\<rparr>"
    have r1: "relax u d ns ?l1 = Inr l'"
      using Cons.prems True dv unfolding e relax_Cons by simp
    show ?thesis
      unfolding e by (rule upd[OF dv True refl r1 Cons.IH[OF r1]])
  next
    case False
    have r1: "relax u d ns l = Inr l'"
      using Cons.prems False dv unfolding e relax_Cons by simp
    show ?thesis
      unfolding e by (rule skip[OF dv False r1 Cons.IH[OF r1]])
  qed
qed

lemma relax_total:
  "\<forall>(v, w) \<in> set ns. v \<in> dom (dist l) \<Longrightarrow> \<exists>l'. relax u d ns l = Inr l'"
proof (induction ns arbitrary: l)
  case Nil
  then show ?case by simp
next
  case (Cons e ns)
  obtain v w where e: "e = (v, w)" by (cases e)
  from Cons.prems obtain dv where dv: "dist l v = Some dv"
    by (auto simp: e)
  show ?case
  proof (cases "Fin (d + w) < dv")
    case True
    let ?l1 = "l\<lparr>dist := (dist l)(v \<mapsto> Fin (d + w)), prev := (prev l)(v \<mapsto> Some u),
                 heap := (d + w, v) # heap l\<rparr>"
    have "\<forall>(v', w') \<in> set ns. v' \<in> dom (dist ?l1)"
      using Cons.prems by auto
    from Cons.IH[OF this] show ?thesis
      using True dv unfolding e relax_Cons by simp
  next
    case False
    have "\<forall>(v', w') \<in> set ns. v' \<in> dom (dist l)"
      using Cons.prems by auto
    from Cons.IH[OF this] show ?thesis
      using False dv unfolding e relax_Cons by simp
  qed
qed

lemma relax_le:
  "relax u d ns l = Inr l' \<Longrightarrow> dist l y = Some x \<Longrightarrow> \<exists>x'. dist l' y = Some x' \<and> x' \<le> x"
proof (induction arbitrary: x rule: relax_induct)
  case Nil
  then show ?case by simp
next
  case (skip v w ns l dv)
  then show ?case by simp
next
  case (upd v w ns l dv l1)
  show ?case
  proof (cases "y = v")
    case True
    have "dist l1 y = Some (Fin (d + w))" using upd.hyps True by simp
    from upd.IH[OF this] obtain x' where "dist l' y = Some x'" "x' \<le> Fin (d + w)" by auto
    moreover have "Fin (d + w) < x" using upd True by simp
    ultimately show ?thesis by auto
  next
    case False
    then have "dist l1 y = Some x" using upd by simp
    from upd.IH[OF this] show ?thesis .
  qed
qed

lemma relax_None:
  "relax u d ns l = Inr l' \<Longrightarrow> dist l y = None \<Longrightarrow> dist l' y = None"
proof (induction rule: relax_induct)
  case Nil
  then show ?case by simp
next
  case (skip v w ns l dv)
  then show ?case by simp
next
  case (upd v w ns l dv l1)
  then have "y \<noteq> v" by auto
  then have "dist l1 y = None" using upd by simp
  then show ?case by (rule upd.IH)
qed

lemma relax_dom_dist:
  assumes r: "relax u d ns l = Inr l'"
  shows "dom (dist l') = dom (dist l)"
proof -
  have "\<And>y. (dist l' y = None) = (dist l y = None)"
    using relax_le[OF r] relax_None[OF r] by (metis option.exhaust option.distinct(1))
  then show ?thesis by (auto simp: dom_def)
qed

lemma relax_heap_mono: "relax u d ns l = Inr l' \<Longrightarrow> set (heap l) \<subseteq> set (heap l')"
proof (induction rule: relax_induct)
  case Nil
  then show ?case by simp
next
  case (skip v w ns l dv)
  then show ?case by simp
next
  case (upd v w ns l dv l1)
  then show ?case by auto
qed

lemma relax_same:
  "relax u d ns l = Inr l' \<Longrightarrow> dist l' y = dist l y \<Longrightarrow> prev l' y = prev l y"
proof (induction rule: relax_induct)
  case Nil
  then show ?case by simp
next
  case (skip v w ns l dv)
  then show ?case by simp
next
  case (upd v w ns l dv l1)
  show ?case
  proof (cases "y = v")
    case True
    have "dist l1 v = Some (Fin (d + w))" using upd.hyps by simp
    from relax_le[OF upd.hyps(4) this] obtain x' where "dist l' v = Some x'" "x' \<le> Fin (d + w)"
      by auto
    with upd.hyps(1,2) upd.prems True show ?thesis by auto
  next
    case False
    then have "dist l1 y = dist l y" "prev l1 y = prev l y" using upd.hyps by simp_all
    with upd.IH upd.prems show ?thesis by simp
  qed
qed

lemma relax_changed:
  "relax u d ns l = Inr l' \<Longrightarrow> dist l' y \<noteq> dist l y \<Longrightarrow>
   prev l' y = Some (Some u) \<and>
   (\<exists>w. (y, w) \<in> set ns \<and> dist l' y = Some (Fin (d + w)) \<and> (d + w, y) \<in> set (heap l'))"
proof (induction rule: relax_induct)
  case Nil
  then show ?case by simp
next
  case (skip v w ns l dv)
  then show ?case by auto
next
  case (upd v w ns l dv l1)
  show ?case
  proof (cases "dist l' y = dist l1 y")
    case False
    from upd.IH[OF False] show ?thesis by auto
  next
    case True
    have yv: "y = v"
    proof (rule ccontr)
      assume "y \<noteq> v"
      then have "dist l1 y = dist l y" using upd.hyps by simp
      with True upd.prems show False by simp
    qed
    have "prev l' y = prev l1 y" by (rule relax_same[OF upd.hyps(4) True])
    moreover have "prev l1 y = Some (Some u)" "dist l1 y = Some (Fin (d + w))"
      "(d + w, y) \<in> set (heap l1)"
      using upd.hyps yv by simp_all
    moreover have "set (heap l1) \<subseteq> set (heap l')" by (rule relax_heap_mono[OF upd.hyps(4)])
    ultimately show ?thesis using True yv by auto
  qed
qed

lemma relax_heap_new:
  "relax u d ns l = Inr l' \<Longrightarrow> (a, y) \<in> set (heap l') \<Longrightarrow> (a, y) \<notin> set (heap l) \<Longrightarrow>
   (\<exists>w. (y, w) \<in> set ns \<and> a = d + w) \<and> (\<exists>x. dist l y = Some x \<and> Fin a < x) \<and>
   (\<exists>x'. dist l' y = Some x' \<and> x' \<le> Fin a)"
proof (induction rule: relax_induct)
  case Nil
  then show ?case by simp
next
  case (skip v w ns l dv)
  then show ?case by auto
next
  case (upd v w ns l dv l1)
  show ?case
  proof (cases "(a, y) \<in> set (heap l1)")
    case False
    from upd.IH[OF upd.prems(1) False]
    obtain w' x x' where w': "(y, w') \<in> set ns" "a = d + w'"
      and x: "dist l1 y = Some x" "Fin a < x" and x': "dist l' y = Some x'" "x' \<le> Fin a"
      by auto
    have "\<exists>x0. dist l y = Some x0 \<and> Fin a < x0"
    proof (cases "y = v")
      case True
      then have "x = Fin (d + w)" using x upd.hyps by simp
      with x have "Fin a < Fin (d + w)" by simp
      from less_trans[OF this upd.hyps(2)] show ?thesis using True upd.hyps(1) by simp
    next
      case False
      then show ?thesis using x upd.hyps by simp
    qed
    with w' x' show ?thesis by auto
  next
    case True
    then have ay: "a = d + w" "y = v" using upd.prems upd.hyps by auto
    have "dist l1 v = Some (Fin (d + w))" using upd.hyps by simp
    from relax_le[OF upd.hyps(4) this] show ?thesis
      using ay upd.hyps(1,2) by auto
  qed
qed

lemma relax_heap_inv:
  assumes r: "relax u d ns l = Inr l'" and h: "heap_inv l"
  shows "heap_inv l'"
  unfolding heap_inv_def
proof (intro allI impI)
  fix a y assume m: "(a, y) \<in> set (heap l')"
  show "\<exists>x. dist l' y = Some x \<and> x \<le> Fin a"
  proof (cases "(a, y) \<in> set (heap l)")
    case True
    with h obtain x where "dist l y = Some x" "x \<le> Fin a" by (auto simp: heap_inv_def)
    with relax_le[OF r this(1)] show ?thesis by auto
  next
    case False
    from relax_heap_new[OF r m False] show ?thesis by auto
  qed
qed

lemma relax_distinct:
  "relax u d ns l = Inr l' \<Longrightarrow> heap_inv l \<Longrightarrow> distinct (heap l) \<Longrightarrow> distinct (heap l')"
proof (induction rule: relax_induct)
  case Nil
  then show ?case by simp
next
  case (skip v w ns l dv)
  then show ?case by simp
next
  case (upd v w ns l dv l1)
  have notin: "(d + w, v) \<notin> set (heap l)"
  proof
    assume "(d + w, v) \<in> set (heap l)"
    with upd.prems(1) obtain x where "dist l v = Some x" "x \<le> Fin (d + w)"
      by (auto simp: heap_inv_def)
    with upd.hyps(1,2) show False by auto
  qed
  have "heap_inv l1"
    unfolding heap_inv_def
  proof (intro allI impI)
    fix a y assume m: "(a, y) \<in> set (heap l1)"
    show "\<exists>x. dist l1 y = Some x \<and> x \<le> Fin a"
    proof (cases "(a, y) = (d + w, v)")
      case True
      then show ?thesis using upd.hyps by simp
    next
      case False
      with m have "(a, y) \<in> set (heap l)" using upd.hyps(3) by auto
      with upd.prems(1) obtain x where x: "dist l y = Some x" "x \<le> Fin a"
        by (auto simp: heap_inv_def)
      show ?thesis
      proof (cases "y = v")
        case True
        with x upd.hyps(1,2) have "Fin (d + w) < x" "x \<le> Fin a" by auto
        then have "Fin (d + w) \<le> Fin a" by (meson less_le_trans less_imp_le)
        then show ?thesis using True upd.hyps by simp
      next
        case False
        then show ?thesis using x upd.hyps by simp
      qed
    qed
  qed
  moreover have "distinct (heap l1)" using notin upd.prems upd.hyps by simp
  ultimately show ?case by (rule upd.IH)
qed

lemma relax_relaxed:
  "relax u d ns l = Inr l' \<Longrightarrow> (y, w) \<in> set ns \<Longrightarrow> \<exists>x. dist l' y = Some x \<and> x \<le> Fin (d + w)"
proof (induction rule: relax_induct)
  case Nil
  then show ?case by simp
next
  case (skip v w0 ns l dv)
  show ?case
  proof (cases "(y, w) = (v, w0)")
    case True
    from relax_le[OF skip.hyps(3) skip.hyps(1)] obtain x' where "dist l' v = Some x'" "x' \<le> dv"
      by auto
    with skip.hyps(2) True show ?thesis by auto
  next
    case False
    with skip.prems have "(y, w) \<in> set ns" by auto
    then show ?thesis by (rule skip.IH)
  qed
next
  case (upd v w0 ns l dv l1)
  show ?case
  proof (cases "(y, w) = (v, w0)")
    case True
    have "dist l1 v = Some (Fin (d + w0))" using upd.hyps by simp
    from relax_le[OF upd.hyps(4) this] show ?thesis using True by auto
  next
    case False
    with upd.prems have "(y, w) \<in> set ns" by auto
    then show ?thesis by (rule upd.IH)
  qed
qed

lemma relax_dom_prev:
  "relax u d ns l = Inr l' \<Longrightarrow> dom (prev l) = dom (dist l) \<Longrightarrow> dom (prev l') = dom (dist l')"
proof (induction rule: relax_induct)
  case Nil
  then show ?case by simp
next
  case (skip v w ns l dv)
  then show ?case by simp
next
  case (upd v w ns l dv l1)
  have "dom (prev l1) = dom (dist l1)" using upd.prems upd.hyps by auto
  then show ?case by (rule upd.IH)
qed

subsection \<open>Auxiliary facts: paths\<close>

lemma path_ok_append:
  "path_ok g u (p @ q) = (path_ok g u p \<and> path_ok g (path_end u p) q)"
  by (induction p arbitrary: u) auto

lemma path_end_append: "path_end u (p @ q) = path_end (path_end u p) q"
  by (induction p arbitrary: u) auto

lemma is_path_Nil: "is_path g s [] v \<longleftrightarrow> v = s"
  by (auto simp: is_path_def)

lemma is_path_snoc:
  "is_path g s (p @ [(v, w)]) x \<longleftrightarrow> (\<exists>u. is_path g s p u \<and> edge g u v w \<and> x = v)"
  by (auto simp: is_path_def path_ok_append path_end_append)

lemma path_weight_snoc: "path_weight (p @ [(v, w)]) = path_weight p + w"
  by (simp add: path_weight_def)

lemma path_weight_nonneg:
  "graph_inv g \<Longrightarrow> path_ok g u p \<Longrightarrow> 0 \<le> path_weight p"
proof (induction p arbitrary: u)
  case Nil
  then show ?case by (simp add: path_weight_def)
next
  case (Cons e p)
  obtain v w where e: "e = (v, w)" by (cases e)
  from Cons.prems have "edge g u v w" "path_ok g v p" by (simp_all add: e)
  with Cons.IH[OF Cons.prems(1), of v] Cons.prems(1) have "0 \<le> w" "0 \<le> path_weight p"
    by (auto simp: graph_inv_def)
  then show ?case by (simp add: e path_weight_def)
qed


lemma edge_iff: "edge g u v w \<longleftrightarrow> (\<exists>ns. adj g u = Some ns \<and> (v, w) \<in> set ns)"
  by (auto simp: edge_def split: option.splits)

subsection \<open>The invariant holds initially\<close>


lemma invI:
  assumes "dom (dist l) = dom (adj g)" and "dom (prev l) = dom (adj g)"
    and "dist l s = Some (Fin 0)" and "prev l s = Some None"
    and "heap_inv l" and "distinct (heap l)"
    and "\<forall>v d. dist l v = Some (Fin d) \<longrightarrow> (\<exists>p. is_path g s p v \<and> path_weight p = d)"
    and "\<forall>u v w. settled l u \<longrightarrow> edge g u v w \<longrightarrow>
         (\<exists>d x. dist l u = Some (Fin d) \<and> dist l v = Some x \<and> x \<le> Fin (d + w))"
    and "\<forall>u d d' v. dist l u = Some (Fin d) \<longrightarrow> (d, u) \<notin> set (heap l) \<longrightarrow>
         (d', v) \<in> set (heap l) \<longrightarrow> d \<le> d'"
    and "\<forall>v u. prev l v = Some (Some u) \<longrightarrow>
         settled l u \<and> (\<exists>d. dist l v = Some (Fin d)) \<and> v \<noteq> s"
    and "\<forall>v d. v \<noteq> s \<longrightarrow> dist l v = Some (Fin d) \<longrightarrow> (\<exists>u. prev l v = Some (Some u))"
    and "\<forall>v. settled l v \<longrightarrow> pchain (prev l) s v"
  shows "inv g s l"
  unfolding inv_def by (intro conjI assms)

lemma invD:
  assumes "inv g s l"
  shows "dom (dist l) = dom (adj g)" and "dom (prev l) = dom (adj g)"
    and "dist l s = Some (Fin 0)" and "prev l s = Some None"
    and "heap_inv l" and "distinct (heap l)"
    and "\<And>v d. dist l v = Some (Fin d) \<Longrightarrow> \<exists>p. is_path g s p v \<and> path_weight p = d"
    and "\<And>u v w. settled l u \<Longrightarrow> edge g u v w \<Longrightarrow>
         \<exists>d x. dist l u = Some (Fin d) \<and> dist l v = Some x \<and> x \<le> Fin (d + w)"
    and "\<And>u d d' v. dist l u = Some (Fin d) \<Longrightarrow> (d, u) \<notin> set (heap l) \<Longrightarrow>
         (d', v) \<in> set (heap l) \<Longrightarrow> d \<le> d'"
    and "\<And>v u. prev l v = Some (Some u) \<Longrightarrow>
         settled l u \<and> (\<exists>d. dist l v = Some (Fin d)) \<and> v \<noteq> s"
    and "\<And>v d. v \<noteq> s \<Longrightarrow> dist l v = Some (Fin d) \<Longrightarrow> \<exists>u. prev l v = Some (Some u)"
    and "\<And>v. settled l v \<Longrightarrow> pchain (prev l) s v"
  using assms unfolding inv_def by blast+

lemma init_locals_simps:
  "dist (init_locals g s) v = (if v = s then Some (Fin 0) else map_option (\<lambda>_. PInf) (adj g v))"
  "prev (init_locals g s) v = map_option (\<lambda>_. None) (adj g v)"
  "heap (init_locals g s) = [(0, s)]"
  by (simp_all add: init_locals_def)

lemma settled_init: "\<not> settled (init_locals g s) v"
  by (auto simp: settled_def init_locals_simps split: if_splits)

lemma inv_init:
  assumes "s \<in> dom (adj g)"
  shows "inv g s (init_locals g s)"
proof (rule invI)
  have fin: "\<And>v d. dist (init_locals g s) v = Some (Fin d) \<Longrightarrow> v = s \<and> d = 0"
    by (auto simp: init_locals_simps split: if_splits)
  show "dom (dist (init_locals g s)) = dom (adj g)"
    using assms by (auto simp: init_locals_simps split: if_splits)
  show "dom (prev (init_locals g s)) = dom (adj g)"
    by (auto simp: init_locals_simps)
  show "dist (init_locals g s) s = Some (Fin 0)"
    by (simp add: init_locals_simps)
  show "prev (init_locals g s) s = Some None"
    using assms by (auto simp: init_locals_simps)
  show "heap_inv (init_locals g s)"
    by (simp add: heap_inv_def init_locals_simps)
  show "distinct (heap (init_locals g s))"
    by (simp add: init_locals_simps)
  show "\<forall>v d. dist (init_locals g s) v = Some (Fin d) \<longrightarrow>
      (\<exists>p. is_path g s p v \<and> path_weight p = d)"
  proof (intro allI impI)
    fix v d assume "dist (init_locals g s) v = Some (Fin d)"
    from fin[OF this] have "is_path g s [] v \<and> path_weight ([]::('a \<times> real) list) = d"
      by (simp add: is_path_Nil path_weight_def)
    then show "\<exists>p. is_path g s p v \<and> path_weight p = d" by blast
  qed
  show "\<forall>u v w. settled (init_locals g s) u \<longrightarrow> edge g u v w \<longrightarrow>
         (\<exists>d x. dist (init_locals g s) u = Some (Fin d) \<and> dist (init_locals g s) v = Some x \<and> x \<le> Fin (d + w))"
    by (simp add: settled_init)
  show "\<forall>u d d' v. dist (init_locals g s) u = Some (Fin d) \<longrightarrow>
      (d, u) \<notin> set (heap (init_locals g s)) \<longrightarrow> (d', v) \<in> set (heap (init_locals g s)) \<longrightarrow> d \<le> d'"
    using fin by (auto simp: init_locals_simps(3))
  show "\<forall>v u. prev (init_locals g s) v = Some (Some u) \<longrightarrow>
         settled (init_locals g s) u \<and> (\<exists>d. dist (init_locals g s) v = Some (Fin d)) \<and> v \<noteq> s"
    by (auto simp: init_locals_simps)
  show "\<forall>v d. v \<noteq> s \<longrightarrow> dist (init_locals g s) v = Some (Fin d) \<longrightarrow>
      (\<exists>u. prev (init_locals g s) v = Some (Some u))"
    using fin by blast
  show "\<forall>v. settled (init_locals g s) v \<longrightarrow> pchain (prev (init_locals g s)) s v"
    by (simp add: settled_init)
qed

subsection \<open>One iteration preserves the invariant\<close>

lemma settled_heap_update:
  "settled (l\<lparr>heap := h\<rparr>) v \<longleftrightarrow> (\<exists>a. dist l v = Some (Fin a) \<and> (a, v) \<notin> set h)"
  by (simp add: settled_def)

lemma step_stale:
  assumes I: "inv g s l"
    and pop: "heappop (heap l) = Some ((d, u), h)"
    and du: "dist l u = Some x" and ne: "Fin d \<noteq> x"
  shows "inv g s (l\<lparr>heap := h\<rparr>)"
    and "unsettled g (l\<lparr>heap := h\<rparr>) = unsettled g l"
    and "length h < length (heap l)"
proof -
  note D = invD[OF I]
  have h: "h = remove1 (d, u) (heap l)" and mem: "(d, u) \<in> set (heap l)"
    using heappop_SomeD[OF pop] by simp_all
  have seth: "set h = set (heap l) - {(d, u)}"
    unfolding h using D(6) by simp
  have st: "\<And>v. settled (l\<lparr>heap := h\<rparr>) v \<longleftrightarrow> settled l v"
    using du ne by (auto simp: settled_heap_update settled_def seth)
  show "length h < length (heap l)"
    unfolding h using mem by (simp add: length_remove1) (cases "heap l"; simp)
  show "unsettled g (l\<lparr>heap := h\<rparr>) = unsettled g l"
    unfolding unsettled_def st ..
  show "inv g s (l\<lparr>heap := h\<rparr>)"
  proof (rule invI)
    show "heap_inv (l\<lparr>heap := h\<rparr>)"
      using D(5) by (auto simp: heap_inv_def seth)
    show "distinct (heap (l\<lparr>heap := h\<rparr>))"
      using D(6) unfolding h by simp
    show "\<forall>u d d' v. dist (l\<lparr>heap := h\<rparr>) u = Some (Fin d) \<longrightarrow>
        (d, u) \<notin> set (heap (l\<lparr>heap := h\<rparr>)) \<longrightarrow> (d', v) \<in> set (heap (l\<lparr>heap := h\<rparr>)) \<longrightarrow> d \<le> d'"
    proof (intro allI impI)
      fix y a a' v
      assume 1: "dist (l\<lparr>heap := h\<rparr>) y = Some (Fin a)"
        and 2: "(a, y) \<notin> set (heap (l\<lparr>heap := h\<rparr>))"
        and 3: "(a', v) \<in> set (heap (l\<lparr>heap := h\<rparr>))"
      from 1 2 have "(a, y) \<notin> set (heap l)" using du ne by (auto simp: seth)
      moreover from 3 have "(a', v) \<in> set (heap l)" by (simp add: seth)
      ultimately show "a \<le> a'" using D(9)[of y a a' v] 1 by simp
    qed
  qed (use D in \<open>simp_all add: st\<close>)
qed

lemma step_relax:
  assumes I: "inv g s l" and G: "graph_inv g"
    and pop: "heappop (heap l) = Some ((d, u), h)"
    and du: "dist l u = Some (Fin d)"
    and ns: "adj g u = Some ns"
    and r: "relax u d ns (l\<lparr>heap := h\<rparr>) = Inr l'"
  shows "inv g s l'" and "unsettled g l' \<subset> unsettled g l"
proof -
  note D = invD[OF I]
  let ?l1 = "l\<lparr>heap := h\<rparr>"
  have h: "h = remove1 (d, u) (heap l)" and mem: "(d, u) \<in> set (heap l)"
    and least: "\<forall>e \<in> set (heap l). (d, u) \<le> e"
    using heappop_SomeD[OF pop] by simp_all
  have seth: "set h = set (heap l) - {(d, u)}"
    unfolding h using D(6) by simp
  have dmin: "\<And>a y. (a, y) \<in> set (heap l) \<Longrightarrow> d \<le> a"
    using least pair_le_fst by blast
  have edge_ns: "\<And>v w. (v, w) \<in> set ns \<longleftrightarrow> edge g u v w"
    using ns by (simp add: edge_def)
  have wpos: "\<And>v w. (v, w) \<in> set ns \<Longrightarrow> 0 \<le> w"
    using G edge_ns by (auto simp: graph_inv_def)
  have dpos: "0 \<le> d"
  proof -
    from D(7)[OF du] obtain p where "is_path g s p u" "path_weight p = d" by blast
    then show ?thesis using path_weight_nonneg[OF G, of s p] by (simp add: is_path_def)
  qed
  have le: "\<And>y x. dist l y = Some x \<Longrightarrow> \<exists>x'. dist l' y = Some x' \<and> x' \<le> x"
    using relax_le[OF r] by simp
  have chg: "\<And>y. dist l' y \<noteq> dist l y \<Longrightarrow> prev l' y = Some (Some u) \<and>
      (\<exists>w. (y, w) \<in> set ns \<and> dist l' y = Some (Fin (d + w)) \<and> (d + w, y) \<in> set (heap l'))"
    using relax_changed[OF r] by simp
  have same: "\<And>y. dist l' y = dist l y \<Longrightarrow> prev l' y = prev l y"
    using relax_same[OF r] by simp
  have new: "\<And>a y. (a, y) \<in> set (heap l') \<Longrightarrow> (a, y) \<notin> set h \<Longrightarrow>
      (\<exists>w. (y, w) \<in> set ns \<and> a = d + w) \<and> (\<exists>x. dist l y = Some x \<and> Fin a < x)"
    using relax_heap_new[OF r] by simp
  have mono: "set h \<subseteq> set (heap l')"
    using relax_heap_mono[OF r] by simp
  have hinv1: "heap_inv ?l1"
    using D(5) by (auto simp: heap_inv_def seth)
  have dist1: "distinct (heap ?l1)"
    using D(6) unfolding h by simp
  have dom_dist: "dom (dist l') = dom (adj g)"
    using relax_dom_dist[OF r] D(1) by simp
  have dom_prev: "dom (prev l') = dom (adj g)"
    using relax_dom_prev[OF r] D(1,2) dom_dist by simp
  have keep: "\<And>y a. dist l y = Some (Fin a) \<Longrightarrow> a \<le> d \<Longrightarrow> dist l' y = dist l y"
  proof (rule ccontr)
    fix y a assume a: "dist l y = Some (Fin a)" "a \<le> d" and c: "dist l' y \<noteq> dist l y"
    from chg[OF c] obtain w where w: "(y, w) \<in> set ns" "dist l' y = Some (Fin (d + w))" by blast
    from le[OF a(1)] w have "d + w \<le> a" by auto
    moreover have "0 \<le> w" using wpos w by blast
    ultimately have "d + w = a" using a(2) by simp
    with w a c show False by simp
  qed
  have keep_u: "dist l' u = Some (Fin d)"
    using keep[OF du] du by simp
  have keep_s: "dist l' s = Some (Fin 0)"
    using keep[OF D(3) dpos] D(3) by simp
  have keep_settled: "\<And>y. settled l y \<Longrightarrow> dist l' y = dist l y"
  proof -
    fix y assume "settled l y"
    then obtain a where a: "dist l y = Some (Fin a)" "(a, y) \<notin> set (heap l)"
      by (auto simp: settled_def)
    from D(9)[OF a mem] have "a \<le> d" .
    from keep[OF a(1) this] show "dist l' y = dist l y" .
  qed
  have u_unsettled: "\<not> settled l u"
    using du mem by (auto simp: settled_def)
  have settled': "\<And>y. settled l' y \<longleftrightarrow> settled l y \<or> y = u"
  proof
    fix y assume sy: "settled l' y"
    then obtain a where a: "dist l' y = Some (Fin a)" "(a, y) \<notin> set (heap l')"
      by (auto simp: settled_def)
    have eq: "dist l' y = dist l y"
    proof (rule ccontr)
      assume c: "dist l' y \<noteq> dist l y"
      from chg[OF c] a show False by auto
    qed
    from a(2) mono have "(a, y) \<notin> set h" by blast
    then have "(a, y) \<notin> set (heap l) \<or> (a, y) = (d, u)" by (auto simp: seth)
    with a(1) eq show "settled l y \<or> y = u" by (auto simp: settled_def)
  next
    fix y assume "settled l y \<or> y = u"
    then show "settled l' y"
    proof
      assume sy: "settled l y"
      then obtain a where a: "dist l y = Some (Fin a)" "(a, y) \<notin> set (heap l)"
        by (auto simp: settled_def)
      have "(a, y) \<notin> set (heap l')"
      proof
        assume m: "(a, y) \<in> set (heap l')"
        have "(a, y) \<notin> set h" using a(2) by (simp add: seth)
        from new[OF m this] a(1) show False by auto
      qed
      with keep_settled[OF sy] a(1) show ?thesis by (auto simp: settled_def)
    next
      assume yu: "y = u"
      have "(d, u) \<notin> set (heap l')"
      proof
        assume m: "(d, u) \<in> set (heap l')"
        have "(d, u) \<notin> set h" by (simp add: seth)
        from new[OF m this] du show False by auto
      qed
      with keep_u yu show ?thesis by (auto simp: settled_def)
    qed
  qed
  show "unsettled g l' \<subset> unsettled g l"
  proof -
    have "u \<in> dom (adj g)" using ns by auto
    with u_unsettled have "u \<in> unsettled g l" by (simp add: unsettled_def)
    moreover have "u \<notin> unsettled g l'" by (simp add: unsettled_def settled')
    moreover have "unsettled g l' \<subseteq> unsettled g l" by (auto simp: unsettled_def settled')
    ultimately show ?thesis by blast
  qed
  show "inv g s l'"
  proof (rule invI)
    show "dom (dist l') = dom (adj g)" by (rule dom_dist)
    show "dom (prev l') = dom (adj g)" by (rule dom_prev)
    show "dist l' s = Some (Fin 0)" by (rule keep_s)
    show "prev l' s = Some None" using same[of s] keep_s D(3,4) by simp
    show "heap_inv l'" by (rule relax_heap_inv[OF r hinv1])
    show "distinct (heap l')" by (rule relax_distinct[OF r hinv1 dist1])
    show "\<forall>v a. dist l' v = Some (Fin a) \<longrightarrow> (\<exists>p. is_path g s p v \<and> path_weight p = a)"
    proof (intro allI impI)
      fix v a assume a: "dist l' v = Some (Fin a)"
      show "\<exists>p. is_path g s p v \<and> path_weight p = a"
      proof (cases "dist l' v = dist l v")
        case True
        with a D(7)[of v a] show ?thesis by simp
      next
        case False
        from chg[OF False] a obtain w where w: "(v, w) \<in> set ns" "a = d + w" by auto
        from D(7)[OF du] obtain p where p: "is_path g s p u" "path_weight p = d" by blast
        have "is_path g s (p @ [(v, w)]) v"
          unfolding is_path_snoc using p(1) w(1) edge_ns by blast
        moreover have "path_weight (p @ [(v, w)]) = a"
          by (simp add: path_weight_snoc p(2) w(2))
        ultimately show ?thesis by blast
      qed
    qed
    show "\<forall>y v w. settled l' y \<longrightarrow> edge g y v w \<longrightarrow>
         (\<exists>a x. dist l' y = Some (Fin a) \<and> dist l' v = Some x \<and> x \<le> Fin (a + w))"
    proof (intro allI impI)
      fix y v w assume sy: "settled l' y" and e: "edge g y v w"
      from sy settled' have "settled l y \<or> y = u" by simp
      then show "\<exists>a x. dist l' y = Some (Fin a) \<and> dist l' v = Some x \<and> x \<le> Fin (a + w)"
      proof
        assume s0: "settled l y"
        from D(8)[OF s0 e] obtain a x where
          ax: "dist l y = Some (Fin a)" "dist l v = Some x" "x \<le> Fin (a + w)" by blast
        from le[OF ax(2)] obtain x' where "dist l' v = Some x'" "x' \<le> x" by blast
        with ax keep_settled[OF s0] show ?thesis by auto
      next
        assume yu: "y = u"
        with e have "(v, w) \<in> set ns" by (simp add: edge_ns)
        from relax_relaxed[OF r this] keep_u yu show ?thesis by auto
      qed
    qed
    show "\<forall>y a a' v. dist l' y = Some (Fin a) \<longrightarrow> (a, y) \<notin> set (heap l') \<longrightarrow>
         (a', v) \<in> set (heap l') \<longrightarrow> a \<le> a'"
    proof (intro allI impI)
      fix y a a' v
      assume 1: "dist l' y = Some (Fin a)" and 2: "(a, y) \<notin> set (heap l')"
        and 3: "(a', v) \<in> set (heap l')"
      have sy: "settled l' y" using 1 2 by (auto simp: settled_def)
      have ad: "a \<le> d"
      proof (cases "y = u")
        case True
        with 1 keep_u show ?thesis by simp
      next
        case False
        with sy settled' have s0: "settled l y" by simp
        from keep_settled[OF s0] 1 have "dist l y = Some (Fin a)" by simp
        moreover from this s0 have "(a, y) \<notin> set (heap l)" by (auto simp: settled_def)
        ultimately show ?thesis using D(9) mem by blast
      qed
      have "d \<le> a'"
      proof (cases "(a', v) \<in> set h")
        case True
        then show ?thesis using dmin by (auto simp: seth)
      next
        case False
        from new[OF 3 False] obtain w where "(v, w) \<in> set ns" "a' = d + w" by blast
        with wpos show ?thesis by force
      qed
      with ad show "a \<le> a'" by simp
    qed
    show "\<forall>v y. prev l' v = Some (Some y) \<longrightarrow>
         settled l' y \<and> (\<exists>a. dist l' v = Some (Fin a)) \<and> v \<noteq> s"
    proof (intro allI impI)
      fix v y assume p: "prev l' v = Some (Some y)"
      show "settled l' y \<and> (\<exists>a. dist l' v = Some (Fin a)) \<and> v \<noteq> s"
      proof (cases "dist l' v = dist l v")
        case True
        with same p have "prev l v = Some (Some y)" by simp
        from D(10)[OF this] True show ?thesis by (simp add: settled')
      next
        case False
        from chg[OF False] p have "y = u" "\<exists>a. dist l' v = Some (Fin a)" by auto
        moreover have "v \<noteq> s" using False keep_s D(3) by auto
        ultimately show ?thesis by (simp add: settled')
      qed
    qed
    show "\<forall>v a. v \<noteq> s \<longrightarrow> dist l' v = Some (Fin a) \<longrightarrow> (\<exists>y. prev l' v = Some (Some y))"
    proof (intro allI impI)
      fix v a assume v: "v \<noteq> s" and a: "dist l' v = Some (Fin a)"
      show "\<exists>y. prev l' v = Some (Some y)"
      proof (cases "dist l' v = dist l v")
        case True
        with a D(11)[OF v, of a] same[OF True] show ?thesis by simp
      next
        case False
        from chg[OF False] show ?thesis by blast
      qed
    qed
    show "\<forall>v. settled l' v \<longrightarrow> pchain (prev l') s v"
    proof (intro allI impI)
      have old: "\<And>y. pchain (prev l) s y \<Longrightarrow> settled l y \<Longrightarrow> pchain (prev l') s y"
      proof -
        fix y assume "pchain (prev l) s y" "settled l y"
        then show "pchain (prev l') s y"
        proof (induction rule: pchain.induct)
          case pchain_start
          have "prev l' s = Some None" using same[of s] keep_s D(3,4) by simp
          then show ?case by (rule pchain.pchain_start)
        next
          case (pchain_link v y)
          have "prev l' v = Some (Some y)"
            using same[OF keep_settled[OF pchain_link.prems]] pchain_link.hyps(1) by simp
          moreover have "settled l y" using D(10)[OF pchain_link.hyps(1)] by simp
          ultimately show ?case using pchain_link.IH by (blast intro: pchain.pchain_link)
        qed
      qed
      fix v assume "settled l' v"
      with settled' have "settled l v \<or> v = u" by simp
      then show "pchain (prev l') s v"
      proof
        assume "settled l v"
        with D(12) old show ?thesis by blast
      next
        assume vu: "v = u"
        show ?thesis
        proof (cases "u = s")
          case True
          have "prev l' s = Some None" using same[of s] keep_s D(3,4) by simp
          with True vu show ?thesis by (simp add: pchain.pchain_start)
        next
          case False
          from D(11)[OF False du] obtain y where y: "prev l u = Some (Some y)" by blast
          from D(10)[OF y] have sy: "settled l y" by simp
          have "prev l' u = Some (Some y)" using same[of u] keep_u du y by simp
          moreover have "pchain (prev l') s y" using old D(12) sy by blast
          ultimately show ?thesis unfolding vu by (rule pchain.pchain_link)
        qed
      qed
    qed
  qed
qed

subsection \<open>The loop ends, and the invariant holds at its end\<close>

lemma adj_getitem_known: "adj g u = Some ns \<Longrightarrow> adj_getitem g u = (ns, g)"
  by (simp add: adj_getitem_def)

lemma finite_unsettled: "graph_inv g \<Longrightarrow> finite (unsettled g l)"
  by (simp add: graph_inv_def unsettled_def)

lemma inv_step:
  assumes I: "inv g s l" and G: "graph_inv g" and ne: "heap l \<noteq> []"
  shows "\<exists>l'. loop_body g l = (Inr l', g) \<and> inv g s l' \<and>
    ((card (unsettled g l'), length (heap l')), (card (unsettled g l), length (heap l)))
      \<in> less_than <*lex*> less_than"
proof -
  note D = invD[OF I]
  from heappop_nonempty[OF ne] obtain m where
    pop0: "heappop (heap l) = Some (m, remove1 m (heap l))" and m: "m \<in> set (heap l)"
    by blast
  obtain d u where mdu: "m = (d, u)" by (cases m)
  let ?h = "remove1 (d, u) (heap l)"
  have pop: "heappop (heap l) = Some ((d, u), ?h)" using pop0 by (simp add: mdu)
  from D(5) m obtain x where x: "dist l u = Some x" "x \<le> Fin d"
    by (auto simp: heap_inv_def mdu)
  show ?thesis
  proof (cases "Fin d = x")
    case False
    have lb: "loop_body g l = (Inr (l\<lparr>heap := ?h\<rparr>), g)"
      using pop x False by (simp add: loop_body_def)
    from step_stale[OF I pop x(1) False] lb show ?thesis by simp
  next
    case True
    then have du: "dist l u = Some (Fin d)" using x by simp
    then have "u \<in> dom (adj g)" using D(1) by auto
    then obtain ns where ns: "adj g u = Some ns" by auto
    have "\<And>v w. (v, w) \<in> set ns \<Longrightarrow> v \<in> dom (adj g)"
      using G ns unfolding graph_inv_def edge_iff by blast
    then have "\<forall>(v, w) \<in> set ns. v \<in> dom (dist (l\<lparr>heap := ?h\<rparr>))"
      using D(1) by auto
    from relax_total[OF this] obtain l' where r: "relax u d ns (l\<lparr>heap := ?h\<rparr>) = Inr l'"
      by blast
    have lb: "loop_body g l = (Inr l', g)"
      using pop du r by (simp add: loop_body_def adj_getitem_known[OF ns])
    from step_relax[OF I G pop du ns r] have "inv g s l'" "unsettled g l' \<subset> unsettled g l"
      by simp_all
    moreover from this(2) have "card (unsettled g l') < card (unsettled g l)"
      by (rule psubset_card_mono[OF finite_unsettled[OF G]])
    ultimately show ?thesis using lb by simp
  qed
qed

lemma dijkstra_loop_total:
  assumes G: "graph_inv g" and I: "inv g s l"
  shows "\<exists>l'. dijkstra_loop g l = Some (Inr l', g) \<and> inv g s l' \<and> heap l' = []"
proof -
  have "wf (inv_image (less_than <*lex*> less_than)
              (\<lambda>l::'a locals. (card (unsettled g l), length (heap l))))"
    by (intro wf_inv_image wf_lex_prod wf_less_than)
  then show ?thesis
    using I
  proof (induction l rule: wf_induct_rule)
    case (less l)
    show ?case
    proof (cases "heap l = []")
      case True
      then have "dijkstra_loop g l = Some (Inr l, g)"
        by (subst dijkstra_loop.simps) simp
      with less.prems True show ?thesis by simp
    next
      case False
      from inv_step[OF less.prems G False] obtain l1 where
        l1: "loop_body g l = (Inr l1, g)" "inv g s l1"
        "((card (unsettled g l1), length (heap l1)), (card (unsettled g l), length (heap l)))
           \<in> less_than <*lex*> less_than"
        by blast
      have "dijkstra_loop g l = dijkstra_loop g l1"
        by (subst dijkstra_loop.simps) (simp add: False l1(1))
      moreover from l1(3) have "(l1, l) \<in> inv_image (less_than <*lex*> less_than)
              (\<lambda>l::'a locals. (card (unsettled g l), length (heap l)))"
        by simp
      ultimately show ?thesis using less.IH[OF _ l1(2)] by simp
    qed
  qed
qed

lemma dijkstra_result:
  assumes G: "graph_inv g" and s: "s \<in> dom (adj g)"
  shows "\<exists>l. dijkstra g s = Some (Inr (dist l, prev l), g) \<and> inv g s l \<and> heap l = []"
proof -
  from dijkstra_loop_total[OF G inv_init[OF s]] obtain l where
    "dijkstra_loop g (init_locals g s) = Some (Inr l, g)" "inv g s l" "heap l = []"
    by blast
  then show ?thesis using s by (auto simp: dijkstra_def)
qed

subsection \<open>What the final state says\<close>

lemma final_settled:
  "heap l = [] \<Longrightarrow> settled l v \<longleftrightarrow> (\<exists>d. dist l v = Some (Fin d))"
  by (simp add: settled_def)

lemma final_lower_bound:
  assumes I: "inv g s l" and e: "heap l = []"
  shows "is_path g s p v \<Longrightarrow> \<exists>x. dist l v = Some x \<and> x \<le> Fin (path_weight p)"
proof (induction p arbitrary: v rule: rev_induct)
  case Nil
  then show ?case using invD(3)[OF I] by (simp add: is_path_Nil path_weight_def)
next
  case (snoc e0 p)
  obtain y w where e0: "e0 = (y, w)" by (cases e0)
  from snoc.prems obtain u where u: "is_path g s p u" "edge g u y w" "v = y"
    unfolding e0 is_path_snoc by blast
  from snoc.IH[OF u(1)] obtain x where x: "dist l u = Some x" "x \<le> Fin (path_weight p)" by blast
  then obtain a where a: "x = Fin a" "a \<le> path_weight p" by (cases x) auto
  have "settled l u" using final_settled[OF e] x a by simp
  from invD(8)[OF I this u(2)] x a obtain x' where "dist l y = Some x'" "x' \<le> Fin (a + w)"
    by auto
  moreover have "Fin (a + w) \<le> Fin (path_weight p + w)" using a by simp
  ultimately show ?case unfolding e0 path_weight_snoc u(3) by (meson order_trans)
qed

lemma final_dist:
  assumes I: "inv g s l" and e: "heap l = []" and v: "v \<in> dom (adj g)"
  shows "(dist l v = Some PInf \<longleftrightarrow> \<not> reachable g s v) \<and>
    (\<forall>d. dist l v = Some (Fin d) \<longleftrightarrow>
       (\<exists>p. is_path g s p v \<and> path_weight p = d) \<and>
       (\<forall>p. is_path g s p v \<longrightarrow> d \<le> path_weight p))"
proof -
  from v invD(1)[OF I] obtain x where x: "dist l v = Some x" by auto
  have lb: "\<And>p. is_path g s p v \<Longrightarrow> x \<le> Fin (path_weight p)"
    using final_lower_bound[OF I e] x by fastforce
  show ?thesis
  proof (cases x)
    case PInf
    with lb have "\<not> reachable g s v" by (auto simp: reachable_def)
    with x PInf show ?thesis by (auto simp: reachable_def)
  next
    case (Fin a)
    from invD(7)[OF I, of v a] x Fin obtain p where p: "is_path g s p v" "path_weight p = a"
      by auto
    have low: "\<And>q. is_path g s q v \<Longrightarrow> a \<le> path_weight q" using lb Fin by fastforce
    have r: "reachable g s v" using p by (auto simp: reachable_def)
    have "(\<exists>p. is_path g s p v \<and> path_weight p = d) \<and>
         (\<forall>p. is_path g s p v \<longrightarrow> d \<le> path_weight p) \<longleftrightarrow> d = a" for d
    proof
      assume h: "(\<exists>p. is_path g s p v \<and> path_weight p = d) \<and>
         (\<forall>p. is_path g s p v \<longrightarrow> d \<le> path_weight p)"
      then obtain q where "is_path g s q v" "path_weight q = d" by blast
      from low[OF this(1)] this(2) have "a \<le> d" by simp
      moreover from h p have "d \<le> a" by blast
      ultimately show "d = a" by simp
    next
      assume "d = a"
      with p low show "(\<exists>p. is_path g s p v \<and> path_weight p = d) \<and>
         (\<forall>p. is_path g s p v \<longrightarrow> d \<le> path_weight p)" by blast
    qed
    then show ?thesis using x Fin r by auto
  qed
qed

subsection \<open>The states of an execution and the loop\<close>

text \<open>
  The loop started in the initial state continues from every state of \<open>reach\<close>: these
  are the states the \<open>while\<close> loop of \<open>dijkstra\<close> goes through.
\<close>

lemma reach_dijkstra_loop:
  "reach g s x \<Longrightarrow> dijkstra_loop g (init_locals g s) = dijkstra_loop (fst x) (snd x)"
proof (induction rule: reach.induct)
  case reach_init
  then show ?case by simp
next
  case (reach_step g1 l l' g2)
  have "dijkstra_loop g1 l = dijkstra_loop g2 l'"
    by (subst dijkstra_loop.simps) (simp add: reach_step.hyps)
  with reach_step.IH show ?case by simp
qed

lemma reach_inv:
  assumes G: "graph_inv g"
  shows "reach g s x \<Longrightarrow> fst x = g \<and> inv g s (snd x)"
proof (induction rule: reach.induct)
  case reach_init
  then show ?case by (simp add: inv_init)
next
  case (reach_step g1 l l' g2)
  then have g1: "g1 = g" and I: "inv g s l" by simp_all
  from inv_step[OF I G reach_step.hyps(2)] reach_step.hyps(3) show ?case
    unfolding g1 by auto
qed

subsection \<open>Facts about the demo graph\<close>

lemma demo_graph_inv: "graph_inv (snd (demo_graph True))"
  unfolding demo_graph_undirected graph_inv_def
  by (auto simp: edge_def demo_adj_def split: if_splits)

lemma demo_source_known: "''A'' \<in> dom (adj (snd (demo_graph True)))"
  by (simp add: demo_graph_undirected demo_adj_def)

subsection \<open>Shortest distances\<close>



subsection \<open>Path reconstruction\<close>

lemma walk_back_None: "walk_back pr None path = Some (Inr path)"
  by (subst walk_back.simps) simp

lemma walk_back_Some:
  "pr c = Some p \<Longrightarrow> walk_back pr (Some c) path = walk_back pr p (path @ [c])"
  by (subst walk_back.simps) simp



lemma reconstruct_path_unknown: "target \<notin> dom pr \<Longrightarrow> reconstruct_path pr target = Some (Inr [])"
  by (simp add: reconstruct_path_def)

lemma reconstruct_path_no_pred:
  "pr target = Some None \<Longrightarrow> reconstruct_path pr target = Some (Inr [target])"
  by (simp add: reconstruct_path_def walk_back_Some[of pr target None] walk_back_None dom_def)

lemma final_prev:
  assumes I: "inv g s l" and e: "heap l = []"
  shows "\<And>v. dist l v = Some PInf \<Longrightarrow> prev l v = Some None"
    and "\<And>v d. dist l v = Some (Fin d) \<Longrightarrow> pchain (prev l) s v"
proof -
  note D = invD[OF I]
  show "prev l v = Some None" if v: "dist l v = Some PInf" for v
  proof -
    have "v \<in> dom (prev l)" using v D(1,2) by auto
    then obtain q where q: "prev l v = Some q" by auto
    show ?thesis
    proof (cases q)
      case None
      with q show ?thesis by simp
    next
      case (Some u)
      with q D(10)[of v u] v show ?thesis by auto
    qed
  qed
  show "pchain (prev l) s v" if "dist l v = Some (Fin d)" for v d
    using D(12)[of v] final_settled[OF e, of v] that by blast
qed


lemma reachable_self: "reachable g s s"
  unfolding reachable_def using is_path_Nil[of g s s] by blast

text \<open>
  C10. For every graph that satisfies the invariant and every known source, the
  predecessor of the source is \<open>None\<close> in every state at the head of the loop (no
  relaxation overwrites it) and in the predecessor map that \<open>dijkstra\<close> returns, and
  \<open>reconstruct_path\<close> applied to the source returns the one-element list \<open>[source]\<close>,
  whose first element is the source.
\<close>

theorem source_has_no_predecessor:
  assumes "graph_inv g" and "source \<in> dom (adj g)"
  shows "(\<forall>g1 l. reach g source (g1, l) \<longrightarrow> prev l source = Some None) \<and>
    (\<exists>d pr. dijkstra g source = Some (Inr (d, pr), g) \<and> pr source = Some None \<and>
       reconstruct_path pr source = Some (Inr [source]) \<and> hd [source] = source)"
proof
  show "\<forall>g1 l. reach g source (g1, l) \<longrightarrow> prev l source = Some None"
  proof (intro allI impI)
    fix g1 l assume "reach g source (g1, l)"
    from reach_inv[OF assms(1) this] have "inv g source l" by simp
    then show "prev l source = Some None" by (rule invD(4))
  qed
  from dijkstra_result[OF assms] obtain l where
    l: "dijkstra g source = Some (Inr (dist l, prev l), g)" "inv g source l" "heap l = []"
    by blast
  have "prev l source = Some None" by (rule invD(4)[OF l(2)])
  with reconstruct_path_no_pred[of "prev l" source] l(1)
  show "\<exists>d pr. dijkstra g source = Some (Inr (d, pr), g) \<and> pr source = Some None \<and>
       reconstruct_path pr source = Some (Inr [source]) \<and> hd [source] = source"
    by auto
qed

theorem source_has_no_predecessor_witness:
  "graph_inv (snd (demo_graph True)) \<and> ''A'' \<in> dom (adj (snd (demo_graph True))) \<and>
   reach (snd (demo_graph True)) ''A''
     (snd (demo_graph True), init_locals (snd (demo_graph True)) ''A'') \<and>
   prev (init_locals (snd (demo_graph True)) ''A'') ''A'' = Some None \<and>
   (\<exists>d pr. dijkstra (snd (demo_graph True)) ''A'' = Some (Inr (d, pr), snd (demo_graph True)) \<and>
      pr ''A'' = Some None \<and> reconstruct_path pr ''A'' = Some (Inr [''A'']) \<and>
      hd [''A''] = ''A'')"
  using source_has_no_predecessor[OF demo_graph_inv demo_source_known]
    demo_graph_inv demo_source_known reach_init[OF demo_source_known]
  by blast



text \<open>
  C5. For every graph that satisfies the invariant, every known source and every target
  that no path from the source reaches, with the predecessor map \<open>pr\<close> returned by
  \<open>dijkstra\<close>: if the target is not a key of \<open>pr\<close>, \<open>reconstruct_path\<close> returns the
  empty list; if it is a key, it is not the source, its predecessor is \<open>None\<close> and
  \<open>reconstruct_path\<close> returns exactly \<open>[target]\<close>. So the result for an unreachable
  target never has more than one element. The empty list is returned for a missing key
  of any predecessor map.
\<close>

theorem reconstruct_path_unreachable:
  assumes "graph_inv g" and "source \<in> dom (adj g)" and "\<not> reachable g source target"
  shows "\<exists>d pr. dijkstra g source = Some (Inr (d, pr), g) \<and> dom pr = dom (adj g) \<and>
    (target \<notin> dom pr \<longrightarrow> reconstruct_path pr target = Some (Inr [])) \<and>
    (target \<in> dom pr \<longrightarrow>
       target \<noteq> source \<and> d target = Some PInf \<and> pr target = Some None \<and>
       reconstruct_path pr target = Some (Inr [target])) \<and>
    (\<forall>pr' t. t \<notin> dom pr' \<longrightarrow> reconstruct_path pr' t = Some (Inr ([]::'a list)))"
proof -
  from dijkstra_result[OF assms(1,2)] obtain l where
    l: "dijkstra g source = Some (Inr (dist l, prev l), g)" "inv g source l" "heap l = []"
    by blast
  note D = invD[OF l(2)]
  have ne: "target \<noteq> source" using assms(3) reachable_self[of g source] by auto
  have known: "dist l target = Some PInf \<and> prev l target = Some None \<and>
       reconstruct_path (prev l) target = Some (Inr [target])" if t: "target \<in> dom (prev l)"
  proof -
    from t D(2) have "target \<in> dom (adj g)" by simp
    from final_dist[OF l(2,3) this] assms(3) have inf: "dist l target = Some PInf" by simp
    from final_prev(1)[OF l(2,3), of target] inf have "prev l target = Some None" by simp
    with reconstruct_path_no_pred[of "prev l" target] inf show ?thesis by simp
  qed
  have "\<forall>pr' t. t \<notin> dom pr' \<longrightarrow> reconstruct_path pr' t = Some (Inr ([]::'a list))"
    by (simp add: reconstruct_path_def)
  with l(1) D(2) ne known reconstruct_path_unknown[of target "prev l"] show ?thesis by blast
qed

lemma small_graph_unreachable:
  "\<not> reachable \<lparr>adj = [''A'' \<mapsto> [(''B'', 1)], ''B'' \<mapsto> []]\<rparr> ''B'' ''A''"
proof
  assume "reachable \<lparr>adj = [''A'' \<mapsto> [(''B'', 1)], ''B'' \<mapsto> []]\<rparr> ''B'' ''A''"
  then obtain p where p: "is_path \<lparr>adj = [''A'' \<mapsto> [(''B'', 1)], ''B'' \<mapsto> []]\<rparr> ''B'' p ''A''"
    by (auto simp: reachable_def)
  show False
  proof (cases p)
    case Nil
    with p show False by (simp add: is_path_def)
  next
    case (Cons e q)
    with p show False by (cases e) (simp add: is_path_def edge_def)
  qed
qed

lemma small_graph_inv: "graph_inv \<lparr>adj = [''A'' \<mapsto> [(''B'', 1)], ''B'' \<mapsto> []]\<rparr>"
  unfolding graph_inv_def by (auto simp: edge_def split: if_splits)

theorem reconstruct_path_unreachable_witness:
  "add_edge Graph_init ''A'' ''B'' 1 False = (Inr (), \<lparr>adj = [''A'' \<mapsto> [(''B'', 1)], ''B'' \<mapsto> []]\<rparr>) \<and>
   graph_inv \<lparr>adj = [''A'' \<mapsto> [(''B'', 1)], ''B'' \<mapsto> []]\<rparr> \<and>
   ''B'' \<in> dom (adj \<lparr>adj = [''A'' \<mapsto> [(''B'', 1)], ''B'' \<mapsto> []]\<rparr>) \<and>
   \<not> reachable \<lparr>adj = [''A'' \<mapsto> [(''B'', 1)], ''B'' \<mapsto> []]\<rparr> ''B'' ''A'' \<and>
   (\<exists>d pr. dijkstra \<lparr>adj = [''A'' \<mapsto> [(''B'', 1)], ''B'' \<mapsto> []]\<rparr> ''B''
        = Some (Inr (d, pr), \<lparr>adj = [''A'' \<mapsto> [(''B'', 1)], ''B'' \<mapsto> []]\<rparr>) \<and>
      ''A'' \<in> dom pr \<and> d ''A'' = Some PInf \<and> pr ''A'' = Some None \<and>
      reconstruct_path pr ''A'' = Some (Inr [''A'']))"
proof -
  have k: "''B'' \<in> dom (adj \<lparr>adj = [''A'' \<mapsto> [(''B'', 1::real)], ''B'' \<mapsto> []]\<rparr>)"
    by simp
  have a: "add_edge Graph_init ''A'' ''B'' 1 False
      = (Inr (), \<lparr>adj = [''A'' \<mapsto> [(''B'', 1)], ''B'' \<mapsto> []]\<rparr>)"
    by (simp add: add_edge_def adj_append_def adj_getitem_def Graph_init_def)
  from reconstruct_path_unreachable[OF small_graph_inv k small_graph_unreachable]
  obtain d pr where
    r: "dijkstra \<lparr>adj = [''A'' \<mapsto> [(''B'', 1)], ''B'' \<mapsto> []]\<rparr> ''B''
        = Some (Inr (d, pr), \<lparr>adj = [''A'' \<mapsto> [(''B'', 1)], ''B'' \<mapsto> []]\<rparr>)"
      "dom pr = dom (adj \<lparr>adj = [''A'' \<mapsto> [(''B'', 1::real)], ''B'' \<mapsto> []]\<rparr>)"
      "''A'' \<in> dom pr \<longrightarrow>
       ''A'' \<noteq> ''B'' \<and> d ''A'' = Some PInf \<and> pr ''A'' = Some None \<and>
       reconstruct_path pr ''A'' = Some (Inr [''A''])"
    by (elim exE conjE) (rule that)
  from r(2) have "''A'' \<in> dom pr" by simp
  with r a k small_graph_inv small_graph_unreachable show ?thesis by blast
qed

subsection \<open>Executions on arbitrary graphs\<close>

lemma heap_inv_init: "heap_inv (init_locals g s)"
  by (simp add: heap_inv_def init_locals_simps)

lemma dom_dist_init: "s \<in> dom (adj g) \<Longrightarrow> dom (dist (init_locals g s)) = dom (adj g)"
  by (auto simp: init_locals_simps split: if_splits)

lemma heap_inv_remove1: "heap_inv l \<Longrightarrow> heap_inv (l\<lparr>heap := remove1 m (heap l)\<rparr>)"
  unfolding heap_inv_def using set_remove1_subset[of m "heap l"] by auto

lemma loop_body_frame:
  assumes dm: "dom (dist l) = dom (adj g)" and hi: "heap_inv l"
    and lb: "loop_body g l = (r, g1)"
  shows "g1 = g" and "\<And>l'. r = Inr l' \<Longrightarrow> dom (dist l') = dom (adj g) \<and> heap_inv l'"
proof -
  have "g1 = g \<and> (\<forall>l'. r = Inr l' \<longrightarrow> dom (dist l') = dom (adj g) \<and> heap_inv l')"
  proof (cases "heappop (heap l)")
    case None
    with lb show ?thesis by (auto simp: loop_body_def)
  next
    case (Some a)
    obtain d u h where a: "a = ((d, u), h)" by (cases a) auto
    note pop = Some[unfolded a]
    from heappop_SomeD[OF pop] have h: "h = remove1 (d, u) (heap l)" and m: "(d, u) \<in> set (heap l)"
      by simp_all
    from hi m obtain x where x: "dist l u = Some x" by (auto simp: heap_inv_def)
    have hi1: "heap_inv (l\<lparr>heap := h\<rparr>)" unfolding h by (rule heap_inv_remove1[OF hi])
    show ?thesis
    proof (cases "Fin d = x")
      case False
      with lb pop x have "r = Inr (l\<lparr>heap := h\<rparr>)" "g1 = g" by (simp_all add: loop_body_def)
      with hi1 dm show ?thesis by simp
    next
      case True
      from x dm obtain ns where ns: "adj g u = Some ns" by auto
      from lb pop x True have r: "r = relax u d ns (l\<lparr>heap := h\<rparr>)" and g1: "g1 = g"
        by (simp_all add: loop_body_def adj_getitem_known[OF ns])
      have "dom (dist l') = dom (adj g) \<and> heap_inv l'" if "r = Inr l'" for l'
        using relax_dom_dist[of u d ns "l\<lparr>heap := h\<rparr>" l']
          relax_heap_inv[of u d ns "l\<lparr>heap := h\<rparr>" l'] that r hi1 dm by simp
      with g1 show ?thesis by blast
    qed
  qed
  then show "g1 = g" and "\<And>l'. r = Inr l' \<Longrightarrow> dom (dist l') = dom (adj g) \<and> heap_inv l'"
    by blast+
qed

lemma reach_frame:
  "reach g s x \<Longrightarrow> fst x = g \<and> dom (dist (snd x)) = dom (adj g) \<and> heap_inv (snd x)"
proof (induction rule: reach.induct)
  case reach_init
  then show ?case by (simp add: heap_inv_init dom_dist_init)
next
  case (reach_step g1 l l' g2)
  then have "dom (dist l) = dom (adj g1)" "heap_inv l" "g1 = g" by simp_all
  from loop_body_frame[OF this(1,2) reach_step.hyps(3)] this(3) show ?case by simp
qed

lemma dijkstra_loop_frame:
  "dijkstra_loop g l = Some y \<Longrightarrow> dom (dist l) = dom (adj g) \<Longrightarrow> heap_inv l \<Longrightarrow> snd y = g"
proof (induction rule: dijkstra_loop.raw_induct[rotated, consumes 1])
  case (1 f g l y)
  show ?case
  proof (cases "heap l = []")
    case True
    with "1.hyps" show ?thesis by auto
  next
    case False
    obtain r g1 where lb: "loop_body g l = (r, g1)" by (cases "loop_body g l")
    note fr = loop_body_frame[OF "1.prems" lb]
    show ?thesis
    proof (cases r)
      case (Inl e)
      with "1.hyps" False lb fr(1) show ?thesis by auto
    next
      case (Inr l1)
      with "1.hyps" False lb have "f g1 l1 = Some y" by simp
      then show ?thesis using "1.IH"[of g1 l1 y] fr(2)[OF Inr] fr(1) by simp
    qed
  qed
qed

text \<open>
  C8. \<open>dijkstra\<close> does not change the graph: whatever the graph and the source, when
  the call ends, by returning or by raising, the graph after the call is the graph
  before it, and in every state at the head of the loop the graph is the graph the call
  started with (no lookup \<open>self.adj[u]\<close> has stored a new key). On a graph that
  satisfies the invariant, with a known source, the call does end.
\<close>

theorem dijkstra_graph_unchanged:
  "(\<forall>r g'. dijkstra g source = Some (r, g') \<longrightarrow> g' = g) \<and>
   (\<forall>g1 l. reach g source (g1, l) \<longrightarrow> g1 = g) \<and>
   (graph_inv g \<and> source \<in> dom (adj g) \<longrightarrow> (\<exists>r. dijkstra g source = Some (r, g)))"
proof (intro conjI allI impI)
  fix r g' assume d: "dijkstra g source = Some (r, g')"
  show "g' = g"
  proof (cases "source \<in> dom (adj g)")
    case False
    with d show ?thesis by (simp add: dijkstra_def)
  next
    case True
    from d True obtain y where y: "dijkstra_loop g (init_locals g source) = Some y" "snd y = g'"
      by (auto simp: dijkstra_def split: option.splits sum.splits prod.splits)
    from dijkstra_loop_frame[OF y(1) dom_dist_init[OF True] heap_inv_init] y(2)
    show ?thesis by simp
  qed
next
  fix g1 l assume "reach g source (g1, l)"
  from reach_frame[OF this] show "g1 = g" by simp
next
  assume "graph_inv g \<and> source \<in> dom (adj g)"
  with dijkstra_result[of g source] show "\<exists>r. dijkstra g source = Some (r, g)" by blast
qed

theorem dijkstra_graph_unchanged_witness:
  "graph_inv (snd (demo_graph True)) \<and> ''A'' \<in> dom (adj (snd (demo_graph True))) \<and>
   dijkstra (snd (demo_graph True)) ''A'' = Some (Inr (demo_dist, demo_prev), snd (demo_graph True)) \<and>
   reach (snd (demo_graph True)) ''A'' (snd (demo_graph True), init_locals (snd (demo_graph True)) ''A'') \<and>
   (\<exists>r. dijkstra (snd (demo_graph True)) ''A'' = Some (r, snd (demo_graph True)))"
  using dijkstra_graph_unchanged[of "snd (demo_graph True)" "''A''"]
    demo_graph_inv demo_source_known demo_dijkstra reach_init[OF demo_source_known]
  by blast



subsection \<open>Graphs built by add\_edge\<close>

lemma adj_append_adj:
  "adj (adj_append g u e) = (adj g)(u \<mapsto> (case adj g u of None \<Rightarrow> [] | Some ns \<Rightarrow> ns) @ [e])"
  by (auto simp: adj_append_def adj_getitem_def split: option.splits)

lemma adj_append_dom: "dom (adj (adj_append g u e)) = insert u (dom (adj g))"
  by (simp add: adj_append_adj)

lemma adj_append_edge:
  "edge (adj_append g u (v, w)) a x c \<longleftrightarrow> edge g a x c \<or> (a = u \<and> x = v \<and> c = w)"
  by (auto simp: edge_def adj_append_adj split: option.splits)

lemma add_key_edge:
  "v \<notin> dom (adj g) \<Longrightarrow> edge (g\<lparr>adj := (adj g)(v \<mapsto> [])\<rparr>) a x c \<longleftrightarrow> edge g a x c"
  by (auto simp: edge_def split: option.splits)

lemma add_edge_ok:
  assumes "0 \<le> w"
  shows "\<exists>g'. add_edge g u v w b = (Inr (), g') \<and> dom (adj g') = dom (adj g) \<union> {u, v} \<and>
    (\<forall>a x c. edge g' a x c \<longleftrightarrow>
       edge g a x c \<or> (a = u \<and> x = v \<and> c = w) \<or> (b \<and> a = v \<and> x = u \<and> c = w))"
proof -
  let ?g1 = "adj_append g u (v, w)"
  let ?g2 = "if v \<notin> dom (adj ?g1) then ?g1\<lparr>adj := (adj ?g1)(v \<mapsto> [])\<rparr> else ?g1"
  let ?g3 = "if b then adj_append ?g2 v (u, w) else ?g2"
  have r: "add_edge g u v w b = (Inr (), ?g3)"
    using assms by (simp add: add_edge_def Let_def)
  have d2: "dom (adj ?g2) = dom (adj g) \<union> {u, v}"
    by (auto simp: adj_append_dom)
  have e2: "edge ?g2 a x c \<longleftrightarrow> edge g a x c \<or> (a = u \<and> x = v \<and> c = w)" for a x c
    using add_key_edge[of v ?g1 a x c] by (simp add: adj_append_edge)
  have d3: "dom (adj ?g3) = dom (adj g) \<union> {u, v}"
    using d2 by (cases b) (auto simp: adj_append_dom)
  have e3: "edge ?g3 a x c \<longleftrightarrow>
       edge g a x c \<or> (a = u \<and> x = v \<and> c = w) \<or> (b \<and> a = v \<and> x = u \<and> c = w)" for a x c
    using e2 by (cases b) (simp_all add: adj_append_edge)
  from r d3 e3 show ?thesis by blast
qed

lemma add_edge_fail: "w < 0 \<Longrightarrow> add_edge g u v w b = (Inl ValueError, g)"
  by (simp add: add_edge_def)

lemma endpoints_Cons: "endpoints ((u, v, w, b) # es) = {u, v} \<union> endpoints es"
  by (simp add: endpoints_def)

lemma add_edges_ok:
  "\<forall>(u, v, w, b) \<in> set es. 0 \<le> w \<Longrightarrow>
   \<exists>g'. add_edges g es = (Inr (), g') \<and> dom (adj g') = dom (adj g) \<union> endpoints es \<and>
    (\<forall>a x c. edge g' a x c \<longleftrightarrow>
       edge g a x c \<or> (\<exists>b. (a, x, c, b) \<in> set es) \<or> (x, a, c, True) \<in> set es)"
proof (induction es arbitrary: g)
  case Nil
  then show ?case by (simp add: endpoints_def)
next
  case (Cons e es)
  obtain u v w b where e: "e = (u, v, w, b)" by (cases e)
  from Cons.prems have w: "0 \<le> w" and rest: "\<forall>(u, v, w, b) \<in> set es. 0 \<le> w"
    by (auto simp: e)
  from add_edge_ok[OF w, of g u v b] obtain g1 where g1:
    "add_edge g u v w b = (Inr (), g1)" "dom (adj g1) = dom (adj g) \<union> {u, v}"
    "\<And>a x c. edge g1 a x c \<longleftrightarrow>
       edge g a x c \<or> (a = u \<and> x = v \<and> c = w) \<or> (b \<and> a = v \<and> x = u \<and> c = w)"
    by blast
  from Cons.IH[OF rest, of g1] obtain g' where g':
    "add_edges g1 es = (Inr (), g')" "dom (adj g') = dom (adj g1) \<union> endpoints es"
    "\<And>a x c. edge g' a x c \<longleftrightarrow>
       edge g1 a x c \<or> (\<exists>b. (a, x, c, b) \<in> set es) \<or> (x, a, c, True) \<in> set es"
    by blast
  have "add_edges g (e # es) = (Inr (), g')"
    by (simp add: e g1(1) g'(1))
  moreover have "dom (adj g') = dom (adj g) \<union> endpoints (e # es)"
    unfolding e endpoints_Cons g'(2) g1(2) by blast
  moreover have "\<forall>a x c. edge g' a x c \<longleftrightarrow>
       edge g a x c \<or> (\<exists>b. (a, x, c, b) \<in> set (e # es)) \<or> (x, a, c, True) \<in> set (e # es)"
    unfolding g'(3) g1(3) e by auto
  ultimately show ?case by blast
qed

lemma add_edges_nonneg:
  "add_edges g es = (Inr (), g') \<Longrightarrow> \<forall>(u, v, w, b) \<in> set es. 0 \<le> w"
proof (induction es arbitrary: g)
  case Nil
  then show ?case by simp
next
  case (Cons e es)
  obtain u v w b where e: "e = (u, v, w, b)" by (cases e)
  have w: "0 \<le> w"
  proof (rule ccontr)
    assume "\<not> 0 \<le> w"
    then have "add_edge g u v w b = (Inl ValueError, g)" by (simp add: add_edge_fail)
    with Cons.prems show False by (simp add: e)
  qed
  from add_edge_ok[OF w, of g u v b] obtain g1 where g1: "add_edge g u v w b = (Inr (), g1)"
    by blast
  with Cons.prems have "add_edges g1 es = (Inr (), g')" by (simp add: e)
  from Cons.IH[OF this] w show ?case by (simp add: e)
qed

lemma finite_endpoints: "finite (endpoints es)"
  by (auto simp: endpoints_def)

lemma graph_inv_init: "graph_inv Graph_init"
  by (simp add: graph_inv_def Graph_init_def edge_def)

lemma built_graph:
  assumes "add_edges Graph_init es = (Inr (), g)"
  shows "graph_inv g" and "dom (adj g) = endpoints es"
    and "\<And>a x c. edge g a x c \<longleftrightarrow> (\<exists>b. (a, x, c, b) \<in> set es) \<or> (x, a, c, True) \<in> set es"
proof -
  note nn = add_edges_nonneg[OF assms]
  from add_edges_ok[OF nn, of Graph_init] assms have
    d: "dom (adj g) = endpoints es"
    and e: "\<And>a x c. edge g a x c \<longleftrightarrow> (\<exists>b. (a, x, c, b) \<in> set es) \<or> (x, a, c, True) \<in> set es"
    by (auto simp: Graph_init_def edge_def)
  show "dom (adj g) = endpoints es" by (rule d)
  show "\<And>a x c. edge g a x c \<longleftrightarrow> (\<exists>b. (a, x, c, b) \<in> set es) \<or> (x, a, c, True) \<in> set es"
    by (rule e)
  have "x \<in> endpoints es \<and> 0 \<le> c" if "edge g a x c" for a x c
    using that nn unfolding e endpoints_def by fastforce
  then show "graph_inv g"
    unfolding graph_inv_def d using finite_endpoints by blast
qed

lemma path_ok_cong:
  "(\<And>a x c. edge g a x c = edge g' a x c) \<Longrightarrow> path_ok g u p = path_ok g' u p"
  by (induction p arbitrary: u) auto

subsection \<open>Unknown source\<close>

text \<open>
  C4. Let the graph be built from the empty graph by a sequence of successful
  \<open>add_edge\<close> calls. For a source that is not an endpoint of any inserted edge,
  \<open>dijkstra\<close> raises the \<open>KeyError\<close> of its own test (the spec's \<open>UnknownSource\<close>):
  it returns no distance and no predecessor data, and the graph is unchanged. For a
  source that is an endpoint of an inserted edge it raises nothing and returns a
  distance map and a predecessor map.
\<close>

theorem unknown_source_rejected:
  assumes "add_edges Graph_init es = (Inr (), g)"
  shows "(source \<notin> endpoints es \<longrightarrow>
            dijkstra g source = Some (Inl (KeyError_source source), g)) \<and>
         (source \<in> endpoints es \<longrightarrow>
            (\<exists>d pr. dijkstra g source = Some (Inr (d, pr), g)))"
proof (intro conjI impI)
  note B = built_graph[OF assms]
  assume "source \<notin> endpoints es"
  then show "dijkstra g source = Some (Inl (KeyError_source source), g)"
    by (simp add: dijkstra_def B(2))
next
  note B = built_graph[OF assms]
  assume "source \<in> endpoints es"
  then have "source \<in> dom (adj g)" by (simp add: B(2))
  from dijkstra_result[OF B(1) this] show "\<exists>d pr. dijkstra g source = Some (Inr (d, pr), g)"
    by blast
qed

theorem unknown_source_rejected_witness:
  "add_edges Graph_init [(''A'', ''B'', 1, False)]
     = (Inr (), \<lparr>adj = [''A'' \<mapsto> [(''B'', 1)], ''B'' \<mapsto> []]\<rparr>) \<and>
   ''Z'' \<notin> endpoints [(''A'', ''B'', 1::real, False)] \<and>
   ''A'' \<in> endpoints [(''A'', ''B'', 1::real, False)] \<and>
   dijkstra \<lparr>adj = [''A'' \<mapsto> [(''B'', 1)], ''B'' \<mapsto> []]\<rparr> ''Z''
     = Some (Inl (KeyError_source ''Z''), \<lparr>adj = [''A'' \<mapsto> [(''B'', 1)], ''B'' \<mapsto> []]\<rparr>) \<and>
   (\<exists>d pr. dijkstra \<lparr>adj = [''A'' \<mapsto> [(''B'', 1)], ''B'' \<mapsto> []]\<rparr> ''A''
      = Some (Inr (d, pr), \<lparr>adj = [''A'' \<mapsto> [(''B'', 1)], ''B'' \<mapsto> []]\<rparr>))"
proof -
  have a: "add_edges Graph_init [(''A'', ''B'', 1, False)]
     = (Inr (), \<lparr>adj = [''A'' \<mapsto> [(''B'', 1)], ''B'' \<mapsto> []]\<rparr>)"
    by (simp add: add_edge_def adj_append_def adj_getitem_def Graph_init_def)
  have z: "''Z'' \<notin> endpoints [(''A'', ''B'', 1::real, False)]"
    and k: "''A'' \<in> endpoints [(''A'', ''B'', 1::real, False)]"
    by (simp_all add: endpoints_def)
  from unknown_source_rejected[OF a, of "''Z''"] unknown_source_rejected[OF a, of "''A''"] a z k
  show ?thesis by blast
qed

subsection \<open>Insertion order\<close>

lemma endpoints_set: "set es' = set es \<Longrightarrow> endpoints es' = endpoints es"
  by (simp add: endpoints_def)

lemma final_dist_unique:
  assumes I: "inv g s l" and e: "heap l = []"
    and I': "inv g' s l'" and e': "heap l' = []"
    and dm: "dom (adj g') = dom (adj g)"
    and ed: "\<And>a x c. edge g a x c = edge g' a x c"
  shows "dist l = dist l'"
proof (rule ext)
  fix v
  have pths: "is_path g s p y = is_path g' s p y" for p y
    unfolding is_path_def using path_ok_cong[of g g' s p] ed by simp
  then have rch: "reachable g s y = reachable g' s y" for y
    by (simp add: reachable_def)
  show "dist l v = dist l' v"
  proof (cases "v \<in> dom (adj g)")
    case False
    then have "dist l v = None" "dist l' v = None"
      using invD(1)[OF I] invD(1)[OF I'] dm by auto
    then show ?thesis by simp
  next
    case True
    note F = final_dist[OF I e True]
    from True dm have "v \<in> dom (adj g')" by simp
    note F' = final_dist[OF I' e' this]
    from True invD(1)[OF I] obtain x where x: "dist l v = Some x" by auto
    show ?thesis
    proof (cases x)
      case PInf
      with x F have "\<not> reachable g s v" by simp
      with F' rch have "dist l' v = Some PInf" by simp
      with x PInf show ?thesis by simp
    next
      case (Fin a)
      with x F have "(\<exists>p. is_path g s p v \<and> path_weight p = a) \<and>
          (\<forall>p. is_path g s p v \<longrightarrow> a \<le> path_weight p)" by blast
      then have "(\<exists>p. is_path g' s p v \<and> path_weight p = a) \<and>
          (\<forall>p. is_path g' s p v \<longrightarrow> a \<le> path_weight p)" unfolding pths .
      with F' have "dist l' v = Some (Fin a)" by blast
      with x Fin show ?thesis by simp
    qed
  qed
qed

text \<open>
  C9. Let a graph be built from the empty graph by a sequence of successful \<open>add_edge\<close>
  calls, and let a second sequence be a permutation of the first. Then the second
  sequence succeeds as well, and for every source known to the first graph \<open>dijkstra\<close>
  returns on both graphs, with the same distance map.
\<close>

theorem insertion_order_independent:
  assumes "add_edges Graph_init es = (Inr (), g)" and "mset es' = mset es"
    and "source \<in> dom (adj g)"
  shows "\<exists>g' d pr pr'. add_edges Graph_init es' = (Inr (), g') \<and>
    dijkstra g source = Some (Inr (d, pr), g) \<and>
    dijkstra g' source = Some (Inr (d, pr'), g')"
proof -
  note B = built_graph[OF assms(1)]
  have st: "set es' = set es" using assms(2) by (rule mset_eq_setD)
  have "\<forall>(u, v, w, b) \<in> set es'. 0 \<le> w"
    using add_edges_nonneg[OF assms(1)] st by simp
  from add_edges_ok[OF this, of Graph_init] obtain g' where
    g': "add_edges Graph_init es' = (Inr (), g')" by blast
  note B' = built_graph[OF g']
  have dm: "dom (adj g') = dom (adj g)"
    unfolding B(2) B'(2) by (rule endpoints_set[OF st])
  have ed: "edge g a x c = edge g' a x c" for a x c
    unfolding B(3) B'(3) st ..
  from dijkstra_result[OF B(1) assms(3)] obtain l where
    l: "dijkstra g source = Some (Inr (dist l, prev l), g)" "inv g source l" "heap l = []"
    by blast
  from assms(3) dm have "source \<in> dom (adj g')" by simp
  from dijkstra_result[OF B'(1) this] obtain l' where
    l': "dijkstra g' source = Some (Inr (dist l', prev l'), g')" "inv g' source l'" "heap l' = []"
    by blast
  have "dist l = dist l'"
    by (rule final_dist_unique[OF l(2,3) l'(2,3) dm ed])
  with g' l(1) l'(1) show ?thesis by auto
qed

theorem insertion_order_independent_witness:
  "add_edges Graph_init [(''A'', ''B'', 1, False), (''C'', ''A'', 2, True)]
     = (Inr (), \<lparr>adj = [''A'' \<mapsto> [(''B'', 1), (''C'', 2)], ''B'' \<mapsto> [], ''C'' \<mapsto> [(''A'', 2)]]\<rparr>) \<and>
   mset [(''C'', ''A'', 2::real, True), (''A'', ''B'', 1, False)]
     = mset [(''A'', ''B'', 1, False), (''C'', ''A'', 2, True)] \<and>
   ''A'' \<in> dom (adj \<lparr>adj = [''A'' \<mapsto> [(''B'', 1::real), (''C'', 2)], ''B'' \<mapsto> [], ''C'' \<mapsto> [(''A'', 2)]]\<rparr>) \<and>
   (\<exists>g' d pr pr'.
      add_edges Graph_init [(''C'', ''A'', 2, True), (''A'', ''B'', 1, False)] = (Inr (), g') \<and>
      dijkstra \<lparr>adj = [''A'' \<mapsto> [(''B'', 1), (''C'', 2)], ''B'' \<mapsto> [], ''C'' \<mapsto> [(''A'', 2)]]\<rparr> ''A''
        = Some (Inr (d, pr),
            \<lparr>adj = [''A'' \<mapsto> [(''B'', 1), (''C'', 2)], ''B'' \<mapsto> [], ''C'' \<mapsto> [(''A'', 2)]]\<rparr>) \<and>
      dijkstra g' ''A'' = Some (Inr (d, pr'), g'))"
proof -
  have a: "add_edges Graph_init [(''A'', ''B'', 1, False), (''C'', ''A'', 2, True)]
     = (Inr (), \<lparr>adj = [''A'' \<mapsto> [(''B'', 1), (''C'', 2)], ''B'' \<mapsto> [], ''C'' \<mapsto> [(''A'', 2)]]\<rparr>)"
    by (simp add: add_edge_def adj_append_def adj_getitem_def Graph_init_def fun_upd_twist)
  have m: "mset [(''C'', ''A'', 2::real, True), (''A'', ''B'', 1, False)]
     = mset [(''A'', ''B'', 1, False), (''C'', ''A'', 2, True)]"
    by (simp add: add_mset_commute)
  have k: "''A'' \<in> dom (adj \<lparr>adj = [''A'' \<mapsto> [(''B'', 1::real), (''C'', 2)], ''B'' \<mapsto> [], ''C'' \<mapsto> [(''A'', 2)]]\<rparr>)"
    by simp
  from insertion_order_independent[OF a m k] a m k show ?thesis by blast
qed

end
